theory Spec2Isabelle
  imports Main "HOL-Library.Multiset" "HOL-Library.Word"
begin

section \<open>Grids\<close>

text \<open>
  The engine works on 9 x 9 arrays of arrays of numbers, 0 for an empty cell.  A read
  outside the stored rows and columns is \<open>None\<close> (JavaScript's \<open>undefined\<close>, which is
  equal neither to 0 nor to a digit); the engine itself only indexes 0..8 on 9 x 9 grids.
\<close>

type_synonym board = "nat list list"

definition cell :: "'a list list \<Rightarrow> nat \<Rightarrow> nat \<Rightarrow> 'a option" where
  "cell g r c = (if r < length g \<and> c < length (g ! r) then Some (g ! r ! c) else None)"

definition setCell :: "'a list list \<Rightarrow> nat \<Rightarrow> nat \<Rightarrow> 'a \<Rightarrow> 'a list list" where
  "setCell g r c v = g[r := (g ! r)[c := v]]"

definition wf9 :: "'a list list \<Rightarrow> bool" where
  "wf9 g = (length g = 9 \<and> list_all (\<lambda>row. length row = 9) g)"

record config =
  minRemove :: nat
  maxRemove :: nat
  maxLevel :: nat

record analysis =
  solved :: bool
  anaLevel :: nat
  techniquesUsed :: "string list"

text \<open>\<open>isLevelMatch(analysis, config)\<close>; the analysis field \<open>maxLevel\<close> is \<open>anaLevel\<close> here.\<close>

definition isLevelMatch :: "analysis \<Rightarrow> config \<Rightarrow> bool" where
  "isLevelMatch a cfg =
     (if \<not> solved a then False
      else if anaLevel a > maxLevel cfg then False
      else if maxLevel cfg \<le> 2 then True
      else if maxLevel cfg \<le> 4 then anaLevel a = maxLevel cfg
      else if maxLevel cfg = 5 then anaLevel a \<ge> 5
      else anaLevel a \<ge> 6)"

section \<open>Board generation and solving (backtracking)\<close>

text \<open>Row-major cell coordinates, the order of the nested \<open>for\<close> loops over rows and columns.\<close>

definition coords81 :: "(nat \<times> nat) list" where
  "coords81 = List.product [0..<9] [0..<9]"

definition emptyBoard :: board where
  "emptyBoard = replicate 9 (replicate 9 0)"

text \<open>\<open>findEmptyCell(board)\<close>: the first cell holding 0 in row-major order, or null.\<close>

definition findEmptyCell :: "board \<Rightarrow> (nat \<times> nat) option" where
  "findEmptyCell board = List.find (\<lambda>(row, col). cell board row col = Some 0) coords81"

text \<open>\<open>isValidPlacement(board, row, col, num)\<close>: three scans, each returning false at a hit.\<close>

definition isValidPlacement :: "board \<Rightarrow> nat \<Rightarrow> nat \<Rightarrow> nat \<Rightarrow> bool" where
  "isValidPlacement board row col num =
     (if list_ex (\<lambda>c. cell board row c = Some num) [0..<9] then False
      else if list_ex (\<lambda>r. cell board r col = Some num) [0..<9] then False
      else
        (let boxRow = (row div 3) * 3; boxCol = (col div 3) * 3 in
         if list_ex (\<lambda>r. list_ex (\<lambda>c. cell board r c = Some num) [boxCol..<boxCol + 3])
              [boxRow..<boxRow + 3]
         then False else True))"

text \<open>
  \<open>getPeers(row, col)\<close>: the cells of the row, then of the column, then of the box, each
  pushed unless it is the cell itself or its key \<open>r * 9 + c\<close> was seen before.
\<close>

definition pushPeer :: "bool \<Rightarrow> nat \<times> nat \<Rightarrow> (nat \<times> nat) list \<times> nat list \<Rightarrow> (nat \<times> nat) list \<times> nat list" where
  "pushPeer ok rc st =
     (case st of (peers, seen) \<Rightarrow>
        if ok then (peers @ [rc], seen @ [fst rc * 9 + snd rc]) else (peers, seen))"

definition getPeers :: "nat \<Rightarrow> nat \<Rightarrow> (nat \<times> nat) list" where
  "getPeers row col =
     (let s1 = fold (\<lambda>c st. pushPeer (c \<noteq> col) (row, c) st) [0..<9] ([], []);
          s2 = fold (\<lambda>r st. pushPeer (r \<noteq> row \<and> r * 9 + col \<notin> set (snd st)) (r, col) st) [0..<9] s1;
          br = (row div 3) * 3;
          bc = (col div 3) * 3;
          s3 = fold (\<lambda>(r, c) st.
                  pushPeer (r * 9 + c \<notin> set (snd st) \<and> \<not> (r = row \<and> c = col)) (r, c) st)
                (List.product [br..<br + 3] [bc..<bc + 3]) s2
      in fst s3)"

text \<open>\<open>isPeer(r1, c1, r2, c2)\<close>: same row, same column or same box.\<close>

definition isPeer :: "nat \<Rightarrow> nat \<Rightarrow> nat \<Rightarrow> nat \<Rightarrow> bool" where
  "isPeer r1 c1 r2 c2 =
     (if r1 = r2 then True
      else if c1 = c2 then True
      else if r1 div 3 = r2 div 3 \<and> c1 div 3 = c2 div 3 then True
      else False)"

subsection \<open>Reading and writing cells\<close>

lemma cell_setCell:
  "cell (setCell g r c v) r' c' =
     (if r' = r \<and> c' = c then (if r < length g \<and> c < length (g ! r) then Some v else None)
      else cell g r' c')"
  by (auto simp: cell_def setCell_def nth_list_update)

lemma wf9_setCell [simp]: "wf9 (setCell g r c v) = wf9 g"
proof (cases "r < length g")
  case True
  then show ?thesis
    by (auto simp: wf9_def setCell_def list_all_length nth_list_update)
next
  case False
  then show ?thesis by (simp add: setCell_def list_update_beyond)
qed

lemma wf9_cell: "wf9 g \<Longrightarrow> r < 9 \<Longrightarrow> c < 9 \<Longrightarrow> cell g r c = Some (g ! r ! c)"
  by (auto simp: wf9_def cell_def list_all_length)

lemma cell_setCell_wf:
  "wf9 g \<Longrightarrow> r < 9 \<Longrightarrow> c < 9 \<Longrightarrow>
     cell (setCell g r c v) r' c' = (if r' = r \<and> c' = c then Some v else cell g r' c')"
  by (simp add: cell_setCell wf9_def list_all_length)

lemma cell_Some_range: "cell g r c = Some v \<Longrightarrow> r < length g \<and> c < length (g ! r)"
  by (auto simp: cell_def split: if_splits)

lemma set_coords81: "set coords81 = {(r, c). r < 9 \<and> c < 9}"
  by (auto simp: coords81_def)

subsection \<open>Box arithmetic\<close>

lemma div3_less9:
  assumes "a div 3 = b div 3" "b < 9" shows "a < (9::nat)"
proof -
  have "b div 3 < 3" using assms(2) by (simp add: div_less_iff_less_mult)
  then have "a div 3 < 3" using assms(1) by simp
  then show ?thesis by (simp add: div_less_iff_less_mult)
qed

lemma box_bounds: "(y div 3 * 3 \<le> x \<and> x < y div 3 * 3 + 3) = (x div 3 = y div (3::nat))"
  by arith

lemma box_top: "c < 9 \<Longrightarrow> c div 3 * 3 + 3 \<le> (9::nat)"
  by arith

subsection \<open>The peers of a cell\<close>

definition peerKey :: "nat \<times> nat \<Rightarrow> nat" where
  "peerKey rc = fst rc * 9 + snd rc"

lemma peerKey_inj:
  assumes "snd a < 9" "snd b < 9" "peerKey a = peerKey b"
  shows "a = b"
proof -
  have e: "fst a * 9 + snd a = fst b * 9 + snd b"
    using assms(3) by (simp add: peerKey_def)
  have "(fst a * 9 + snd a) div 9 = fst a" "(fst b * 9 + snd b) div 9 = fst b"
    using assms(1,2) by simp_all
  with e have "fst a = fst b" by simp
  with e show ?thesis by (simp add: prod_eq_iff)
qed

lemma pushPeer_simp:
  "pushPeer ok rc (peers, seen) = (if ok then (peers @ [rc], seen @ [peerKey rc]) else (peers, seen))"
  by (simp add: pushPeer_def peerKey_def)

lemma fold_pushPeer_plain:
  "fold (\<lambda>x st. pushPeer (Q x) (f x) st) xs (ps, sn) =
     (ps @ map f (filter Q xs), sn @ map peerKey (map f (filter Q xs)))"
  by (induction xs arbitrary: ps sn) (auto simp: pushPeer_simp)

lemma fold_pushPeer_seen:
  assumes "snd st = map peerKey (fst st)"
    and "\<forall>p \<in> set (fst st). snd p < 9" and "\<forall>x \<in> set xs. snd (f x) < 9"
  shows "snd (fold (\<lambda>x st. pushPeer (Q x \<and> peerKey (f x) \<notin> set (snd st)) (f x) st) xs st) =
           map peerKey (fst (fold (\<lambda>x st. pushPeer (Q x \<and> peerKey (f x) \<notin> set (snd st)) (f x) st) xs st))
       \<and> set (fst (fold (\<lambda>x st. pushPeer (Q x \<and> peerKey (f x) \<notin> set (snd st)) (f x) st) xs st)) =
           set (fst st) \<union> {f x |x. x \<in> set xs \<and> Q x}"
  using assms
proof (induction xs arbitrary: st)
  case Nil
  then show ?case by simp
next
  case (Cons x xs)
  let ?st' = "pushPeer (Q x \<and> peerKey (f x) \<notin> set (snd st)) (f x) st"
  have inv: "snd ?st' = map peerKey (fst ?st')"
    using Cons.prems(1) by (cases st) (auto simp: pushPeer_simp)
  have rng: "\<forall>p \<in> set (fst ?st'). snd p < 9"
    using Cons.prems(2,3) by (cases st) (auto simp: pushPeer_simp)
  have mem: "peerKey (f x) \<in> set (snd st) \<longleftrightarrow> f x \<in> set (fst st)"
  proof
    assume "peerKey (f x) \<in> set (snd st)"
    then obtain p where p: "p \<in> set (fst st)" "peerKey p = peerKey (f x)"
      using Cons.prems(1) by auto
    with Cons.prems(2,3) have "p = f x" by (intro peerKey_inj) auto
    with p show "f x \<in> set (fst st)" by simp
  next
    assume "f x \<in> set (fst st)"
    then show "peerKey (f x) \<in> set (snd st)" using Cons.prems(1) by auto
  qed
  have step: "set (fst ?st') = set (fst st) \<union> (if Q x then {f x} else {})"
    using mem by (cases st) (auto simp: pushPeer_simp)
  from Cons.IH[OF inv rng] Cons.prems(3) step show ?case
    by (simp only: fold_simps) auto
qed

lemma box_range: "r' \<in> set [(r div 3) * 3..<(r div 3) * 3 + 3] \<longleftrightarrow> r' div 3 = r div (3::nat)"
  by (simp add: box_bounds)

lemma getPeers_set:
  assumes "r < 9" "c < 9"
  shows "set (getPeers r c) =
    {(r', c'). r' < 9 \<and> c' < 9 \<and> (r', c') \<noteq> (r, c) \<and>
       (r' = r \<or> c' = c \<or> (r' div 3 = r div 3 \<and> c' div 3 = c div 3))}"
proof -
  define s1 where "s1 = fold (\<lambda>c' st. pushPeer (c' \<noteq> c) (r, c') st) [0..<9] ([], [])"
  define s2 where "s2 = fold (\<lambda>r' st. pushPeer (r' \<noteq> r \<and> peerKey (r', c) \<notin> set (snd st)) (r', c) st) [0..<9] s1"
  define bx where "bx = List.product [(r div 3) * 3..<(r div 3) * 3 + 3] [(c div 3) * 3..<(c div 3) * 3 + 3]"
  define s3 where "s3 = fold (\<lambda>x st. pushPeer (x \<noteq> (r, c) \<and> peerKey x \<notin> set (snd st)) x st) bx s2"
  have g: "getPeers r c = fst s3"
    unfolding getPeers_def s3_def s2_def s1_def bx_def Let_def peerKey_def
    by (rule arg_cong[where f=fst], rule arg_cong2[where f="\<lambda>f. fold f _"])
       (auto simp: fun_eq_iff conj_commute)
  have s1: "s1 = (map (Pair r) (filter (\<lambda>c'. c' \<noteq> c) [0..<9]), map peerKey (map (Pair r) (filter (\<lambda>c'. c' \<noteq> c) [0..<9])))"
    unfolding s1_def by (simp add: fold_pushPeer_plain)
  have i1: "snd s1 = map peerKey (fst s1)" "\<forall>p \<in> set (fst s1). snd p < 9"
    by (auto simp: s1)
  have s2: "snd s2 = map peerKey (fst s2)" "set (fst s2) = set (fst s1) \<union> {(r', c) |r'. r' \<in> set [0..<9] \<and> r' \<noteq> r}"
    using fold_pushPeer_seen[OF i1, of "[0..<9]" "\<lambda>r'. (r', c)" "\<lambda>r'. r' \<noteq> r"] assms
    unfolding s2_def by auto
  have i2: "\<forall>p \<in> set (fst s2). snd p < 9"
    using i1 s2 assms by auto
  have c3: "c div 3 * 3 + 3 \<le> 9"
    using assms by (rule_tac box_top)
  have bx9: "\<forall>x \<in> set bx. snd x < 9"
    using c3 by (auto simp: bx_def)
  have s3: "set (fst s3) = set (fst s2) \<union> {x |x. x \<in> set bx \<and> x \<noteq> (r, c)}"
    using fold_pushPeer_seen[OF s2(1) i2, of bx "\<lambda>x. x" "\<lambda>x. x \<noteq> (r, c)"] bx9
    unfolding s3_def by auto
  have bxs: "set bx = {(r', c'). r' div 3 = r div 3 \<and> c' div 3 = c div 3}"
    unfolding bx_def set_product box_range[symmetric] by auto
  show ?thesis
    unfolding g s3 s2 bxs using assms by (auto simp: s1 dest: div3_less9)
qed

subsection \<open>isValidPlacement\<close>

lemma isValidPlacement_iff:
  "isValidPlacement b r c v \<longleftrightarrow>
     (\<forall>c' < 9. cell b r c' \<noteq> Some v) \<and> (\<forall>r' < 9. cell b r' c \<noteq> Some v) \<and>
     (\<forall>r' c'. r' div 3 = r div 3 \<and> c' div 3 = c div 3 \<longrightarrow> cell b r' c' \<noteq> Some v)"
  unfolding isValidPlacement_def Let_def list_ex_iff
  by (simp add: Bex_def box_bounds)

lemma isValidPlacement_peers:
  assumes "r < 9" "c < 9"
  shows "isValidPlacement b r c v \<longleftrightarrow>
     (\<forall>(r', c') \<in> set (getPeers r c). cell b r' c' \<noteq> Some v) \<and> cell b r c \<noteq> Some v"
  unfolding isValidPlacement_iff getPeers_set[OF assms]
  using assms by (auto dest: div3_less9)

text \<open>A cell has exactly 20 peers.\<close>

lemma fold_pushPeer_distinct:
  assumes "snd st = map peerKey (fst st)" "distinct (snd st)"
  shows "distinct (snd (fold (\<lambda>x st. pushPeer (Q x \<and> peerKey (f x) \<notin> set (snd st)) (f x) st) xs st))"
  using assms
proof (induction xs arbitrary: st)
  case Nil
  then show ?case by simp
next
  case (Cons x xs)
  let ?st' = "pushPeer (Q x \<and> peerKey (f x) \<notin> set (snd st)) (f x) st"
  have "snd ?st' = map peerKey (fst ?st')" "distinct (snd ?st')"
    using Cons.prems by (cases st; auto simp: pushPeer_simp)+
  from Cons.IH[OF this] show ?case by simp
qed

lemma card_less9_minus: "c < 9 \<Longrightarrow> card ({0..<9} - {c::nat}) = 8"
  by simp

lemma card_box_minus: "card ({x. x div 3 = r div 3} - {r::nat}) = 2"
proof -
  have e: "{x. x div 3 = r div 3} = {r div 3 * 3..<r div 3 * 3 + 3}"
    by (rule set_eqI) (simp add: box_bounds)
  have "r \<in> {r div 3 * 3..<r div 3 * 3 + 3}"
    by (simp add: box_bounds)
  then have "card ({r div 3 * 3..<r div 3 * 3 + 3} - {r}) = 2"
    by (subst card_Diff_singleton) simp_all
  then show ?thesis by (simp only: e)
qed

lemma getPeers_20:
  assumes "r < 9" "c < 9"
  shows "length (getPeers r c) = 20 \<and> distinct (getPeers r c)"
proof -
  define s1 where "s1 = fold (\<lambda>c' st. pushPeer (c' \<noteq> c) (r, c') st) [0..<9] ([], [])"
  define s2 where "s2 = fold (\<lambda>r' st. pushPeer (r' \<noteq> r \<and> peerKey (r', c) \<notin> set (snd st)) (r', c) st) [0..<9] s1"
  define bx where "bx = List.product [(r div 3) * 3..<(r div 3) * 3 + 3] [(c div 3) * 3..<(c div 3) * 3 + 3]"
  define s3 where "s3 = fold (\<lambda>x st. pushPeer (x \<noteq> (r, c) \<and> peerKey x \<notin> set (snd st)) x st) bx s2"
  have g: "getPeers r c = fst s3"
    unfolding getPeers_def s3_def s2_def s1_def bx_def Let_def peerKey_def
    by (rule arg_cong[where f=fst], rule arg_cong2[where f="\<lambda>f. fold f _"])
       (auto simp: fun_eq_iff conj_commute)
  have s1: "s1 = (map (Pair r) (filter (\<lambda>c'. c' \<noteq> c) [0..<9]), map peerKey (map (Pair r) (filter (\<lambda>c'. c' \<noteq> c) [0..<9])))"
    unfolding s1_def by (simp add: fold_pushPeer_plain)
  have i1: "snd s1 = map peerKey (fst s1)" "\<forall>p \<in> set (fst s1). snd p < 9"
    by (auto simp: s1)
  have d1: "distinct (snd s1)"
    unfolding s1 by (auto simp: distinct_map inj_on_def peerKey_def)
  have s2: "snd s2 = map peerKey (fst s2)"
    using fold_pushPeer_seen[OF i1, of "[0..<9]" "\<lambda>r'. (r', c)" "\<lambda>r'. r' \<noteq> r"] assms
    unfolding s2_def by auto
  have d2: "distinct (snd s2)"
    unfolding s2_def using fold_pushPeer_distinct[OF i1(1) d1, of _ "\<lambda>r'. (r', c)"] by simp
  have i3: "snd s3 = map peerKey (fst s3)"
  proof -
    have i2: "\<forall>p \<in> set (fst s2). snd p < 9"
      using fold_pushPeer_seen[OF i1, of "[0..<9]" "\<lambda>r'. (r', c)" "\<lambda>r'. r' \<noteq> r"] i1 assms
      unfolding s2_def by auto
    have bx9: "\<forall>x \<in> set bx. snd x < 9"
      using box_top[OF assms(2)] by (auto simp: bx_def)
    show ?thesis
      using fold_pushPeer_seen[OF s2 i2, of bx "\<lambda>x. x" "\<lambda>x. x \<noteq> (r, c)"] bx9
      unfolding s3_def by auto
  qed
  have d3: "distinct (snd s3)"
    unfolding s3_def using fold_pushPeer_distinct[OF s2 d2, of _ "\<lambda>x. x"] by simp
  have dist: "distinct (getPeers r c)"
    using d3 unfolding g i3 by (simp add: distinct_map)
  let ?A = "{r} \<times> ({0..<9} - {c})"
  let ?B = "({0..<9} - {r}) \<times> {c}"
  let ?C = "({x. x div 3 = r div 3} - {r}) \<times> ({x. x div 3 = c div 3} - {c})"
  have fin: "finite ({x. x div 3 = r div 3} - {r})" "finite ({x. x div 3 = c div 3} - {c})"
    using card_box_minus[of r] card_box_minus[of c] by (auto intro: card_ge_0_finite)
  have split: "set (getPeers r c) = ?A \<union> ?B \<union> ?C"
    unfolding getPeers_set[OF assms] using assms by (auto dest: div3_less9)
  have "card (?A \<union> ?B \<union> ?C) = card ?A + card ?B + card ?C"
    using fin by (subst card_Un_disjoint, simp, simp, blast, subst card_Un_disjoint) auto
  also have "\<dots> = 20"
    using assms by (simp only: card_cartesian_product card_box_minus card_less9_minus) simp
  finally have "card (set (getPeers r c)) = 20" using split by simp
  with dist show ?thesis by (simp add: distinct_card)
qed

section \<open>Randomness\<close>

text \<open>
  \<open>Math.random()\<close> is the only source of randomness.  The outcomes of its successive calls are a
  list of natural numbers, consumed from the front; \<open>Math.floor(Math.random() * n)\<close> is the next
  outcome modulo \<open>n\<close>, so that every index below \<open>n\<close> can come out, and an exhausted list keeps
  answering 0.  A statement for all lists is a statement for every outcome of the random draws.
\<close>

type_synonym rng = "nat list"

definition randomBelow :: "nat \<Rightarrow> rng \<Rightarrow> nat \<times> rng" where
  "randomBelow n rng = (case rng of [] \<Rightarrow> (0, []) | x # rest \<Rightarrow> (x mod n, rest))"

text \<open>
  \<open>shuffleArray(array)\<close>, Fisher-Yates: for \<open>i\<close> from the last index down to 1, swap the entries
  at \<open>i\<close> and at a random \<open>j \<le> i\<close>.
\<close>

fun shuffleFrom :: "nat \<Rightarrow> 'a list \<Rightarrow> rng \<Rightarrow> 'a list \<times> rng" where
  "shuffleFrom 0 array rng = (array, rng)"
| "shuffleFrom (Suc k) array rng =
     (case randomBelow (Suc k + 1) rng of
        (j, rng') \<Rightarrow> shuffleFrom k (array[Suc k := array ! j, j := array ! Suc k]) rng')"

definition shuffleArray :: "'a list \<Rightarrow> rng \<Rightarrow> 'a list \<times> rng" where
  "shuffleArray array rng = shuffleFrom (length array - 1) array rng"

lemma randomBelow_less: "0 < n \<Longrightarrow> fst (randomBelow n rng) < n"
  by (simp add: randomBelow_def split: list.split)

lemma shuffleFrom_mset:
  "k < length array \<Longrightarrow> mset (fst (shuffleFrom k array rng)) = mset array"
proof (induction k arbitrary: array rng)
  case 0
  then show ?case by simp
next
  case (Suc k)
  obtain j rng' where r: "randomBelow (Suc k + 1) rng = (j, rng')"
    by (cases "randomBelow (Suc k + 1) rng")
  have "j < Suc k + 1"
    using randomBelow_less[of "Suc k + 1" rng] r by simp
  with Suc.prems have j: "j < length array" by simp
  have "mset (array[Suc k := array ! j, j := array ! Suc k]) = mset array"
    using Suc.prems j by (simp add: mset_swap)
  moreover have "k < length (array[Suc k := array ! j, j := array ! Suc k])"
    using Suc.prems by simp
  ultimately show ?case
    using Suc.IH[of "array[Suc k := array ! j, j := array ! Suc k]" rng'] r by simp
qed

lemma shuffleArray_mset: "mset (fst (shuffleArray array rng)) = mset array"
proof (cases array)
  case Nil
  then show ?thesis by (simp add: shuffleArray_def)
next
  case (Cons x xs)
  then show ?thesis
    unfolding shuffleArray_def by (intro shuffleFrom_mset) simp
qed

lemma shuffleArray_set: "set (fst (shuffleArray array rng)) = set array"
  using shuffleArray_mset[of array rng] by (metis set_mset_mset)

lemma digits_list: "[1, 2, 3, 4, 5, 6, 7, 8, 9::nat] = [1..<10]"
  by code_simp

lemma digits_set: "set [1, 2, 3, 4, 5, 6, 7, 8, 9::nat] = {1..9}"
  unfolding digits_list by (simp only: set_upt) auto

section \<open>Filling a board and counting its solutions\<close>

text \<open>The number of empty cells, and the same leaving one cell out: the termination measures.\<close>

definition zeros :: "board \<Rightarrow> nat" where
  "zeros board = length (filter (\<lambda>(r, c). cell board r c = Some 0) coords81)"

definition zerosBut :: "board \<Rightarrow> nat \<Rightarrow> nat \<Rightarrow> nat" where
  "zerosBut board row col =
     length (filter (\<lambda>(r, c). (r, c) \<noteq> (row, col) \<and> cell board r c = Some 0) coords81)"

lemma zerosBut_setCell [simp]: "zerosBut (setCell board row col v) row col = zerosBut board row col"
  unfolding zerosBut_def
  by (rule arg_cong[where f=length], rule filter_cong) (auto simp: cell_setCell)

lemma zeros_setCell_le: "v \<noteq> 0 \<Longrightarrow> zeros (setCell board row col v) = zerosBut board row col"
  unfolding zerosBut_def zeros_def
  by (rule arg_cong[where f=length], rule filter_cong) (auto simp: cell_setCell)

lemma distinct_coords81: "distinct coords81"
  by (simp add: coords81_def distinct_product)

lemma length_filter_but:
  "distinct xs \<Longrightarrow> x \<in> set xs \<Longrightarrow> P x \<Longrightarrow>
     length (filter P xs) = Suc (length (filter (\<lambda>y. y \<noteq> x \<and> P y) xs))"
proof (induction xs)
  case Nil
  then show ?case by simp
next
  case (Cons a xs)
  show ?case
  proof (cases "a = x")
    case True
    then have "x \<notin> set xs" using Cons.prems(1) by simp
    then have "filter (\<lambda>y. y \<noteq> x \<and> P y) xs = filter P xs"
      by (intro filter_cong) auto
    with True Cons.prems(3) show ?thesis by simp
  next
    case False
    with Cons show ?thesis by auto
  qed
qed

lemma zeros_zerosBut:
  assumes "(row, col) \<in> set coords81" "cell board row col = Some 0"
  shows "zeros board = Suc (zerosBut board row col)"
proof -
  have "length (filter (\<lambda>(r, c). cell board r c = Some 0) coords81) =
        Suc (length (filter (\<lambda>y. y \<noteq> (row, col) \<and> (case y of (r, c) \<Rightarrow> cell board r c = Some 0)) coords81))"
    using assms distinct_coords81 by (intro length_filter_but) auto
  moreover have "filter (\<lambda>y. y \<noteq> (row, col) \<and> (case y of (r, c) \<Rightarrow> cell board r c = Some 0)) coords81 =
        filter (\<lambda>(r, c). (r, c) \<noteq> (row, col) \<and> cell board r c = Some 0) coords81"
    by (intro filter_cong) auto
  ultimately show ?thesis
    unfolding zeros_def zerosBut_def by simp
qed

lemma findEmptyCell_Some:
  "findEmptyCell board = Some (row, col) \<Longrightarrow>
     (row, col) \<in> set coords81 \<and> cell board row col = Some 0"
  unfolding findEmptyCell_def by (auto simp: find_Some_iff in_set_conv_nth)

lemma findEmptyCell_None:
  "findEmptyCell board = None \<longleftrightarrow> (\<forall>(r, c) \<in> set coords81. cell board r c \<noteq> Some 0)"
  unfolding findEmptyCell_def by (auto simp: find_None_iff)

lemma setCell_zero_id: "cell board row col = Some 0 \<Longrightarrow> setCell board row col 0 = board"
  by (auto simp: cell_def setCell_def split: if_splits) (metis list_update_id)

lemma setCell_setCell [simp]: "setCell (setCell board row col v) row col w = setCell board row col w"
  by (cases "row < length board") (simp_all add: setCell_def list_update_beyond)

text \<open>
  \<open>fillBoard(board)\<close> with its loop over the shuffled digits (\<open>fillNumbers\<close>).  The board is
  mutated in place, so each function returns it: a failed call has undone its own placements.
\<close>

function (domintros) fillBoard :: "board \<Rightarrow> rng \<Rightarrow> bool \<times> board \<times> rng"
  and fillNumbers :: "board \<Rightarrow> nat \<Rightarrow> nat \<Rightarrow> nat list \<Rightarrow> rng \<Rightarrow> bool \<times> board \<times> rng" where
  "fillBoard board rng =
     (case findEmptyCell board of
        None \<Rightarrow> (True, board, rng)
      | Some (row, col) \<Rightarrow>
          (case shuffleArray [1, 2, 3, 4, 5, 6, 7, 8, 9] rng of
             (numbers, rng') \<Rightarrow> fillNumbers board row col numbers rng'))"
| "fillNumbers board row col [] rng = (False, board, rng)"
| "fillNumbers board row col (num # numbers) rng =
     (if isValidPlacement board row col num then
        (case fillBoard (setCell board row col num) rng of
           (ok, board', rng') \<Rightarrow>
             if ok then (True, board', rng')
             else fillNumbers (setCell board' row col 0) row col numbers rng')
      else fillNumbers board row col numbers rng)"
  by pat_completeness auto

lemma fill_restores:
  "fillBoard_fillNumbers_dom (Inl (board, rng)) \<Longrightarrow>
     \<not> fst (fillBoard board rng) \<Longrightarrow> fst (snd (fillBoard board rng)) = board"
  "fillBoard_fillNumbers_dom (Inr (board, row, col, numbers, rng)) \<Longrightarrow>
     \<not> fst (fillNumbers board row col numbers rng) \<Longrightarrow>
     fst (snd (fillNumbers board row col numbers rng)) = board \<or>
     fst (snd (fillNumbers board row col numbers rng)) = setCell board row col 0"
proof (induction board rng and board row col numbers rng rule: fillBoard_fillNumbers.pinduct)
  case (1 board rng)
  show ?case
  proof (cases "findEmptyCell board")
    case None
    with 1 show ?thesis by (simp add: fillBoard.psimps)
  next
    case (Some rc)
    obtain row col where rc: "rc = (row, col)" by (cases rc)
    obtain numbers rng' where sh: "shuffleArray [1, 2, 3, 4, 5, 6, 7, 8, 9::nat] rng = (numbers, rng')"
      by (cases "shuffleArray [1, 2, 3, 4, 5, 6, 7, 8, 9::nat] rng")
    have e: "fillBoard board rng = fillNumbers board row col numbers rng'"
      using 1(1) Some rc sh by (simp add: fillBoard.psimps)
    have z: "setCell board row col 0 = board"
      using findEmptyCell_Some[of board row col] Some rc by (simp add: setCell_zero_id)
    from 1(2)[OF Some rc[symmetric] sh[symmetric]] 1(3) show ?thesis
      unfolding e z by auto
  qed
next
  case (2 board row col rng)
  then show ?case by (simp add: fillNumbers.psimps)
next
  case (3 board row col num numbers rng)
  show ?case
  proof (cases "isValidPlacement board row col num")
    case False
    with 3 show ?thesis by (simp add: fillNumbers.psimps)
  next
    case True
    obtain ok board' rng' where f: "fillBoard (setCell board row col num) rng = (ok, board', rng')"
      by (cases "fillBoard (setCell board row col num) rng")
    show ?thesis
    proof (cases ok)
      case True
      with 3(1,5) \<open>isValidPlacement board row col num\<close> f show ?thesis
        by (simp add: fillNumbers.psimps)
    next
      case False
      have b': "board' = setCell board row col num"
        using 3(2)[OF True] f False by simp
      have e: "fillNumbers board row col (num # numbers) rng =
               fillNumbers (setCell board row col 0) row col numbers rng'"
        using 3(1) True f False b' by (simp add: fillNumbers.psimps)
      from 3(3)[OF True f[symmetric] _ False] 3(5) show ?thesis
        unfolding e b' by (auto simp: False)
    qed
  qed
qed

definition count0 :: "nat list \<Rightarrow> nat" where
  "count0 numbers = length (filter (\<lambda>n. n = 0) numbers)"

termination fillBoard
proof (relation "inv_image (less_than <*lex*> less_than <*lex*> less_than)
    (\<lambda>x. case x of
       Inl (board, rng) \<Rightarrow> (0, 2 * zeros board, 0)
     | Inr (board, row, col, numbers, rng) \<Rightarrow>
         (count0 numbers, 2 * zerosBut board row col + 1, length numbers))", goal_cases)
  case 1
  then show ?case by (intro wf_inv_image wf_lex_prod wf_less_than)
next
  case (2 board rng rc row col numbers rng')
  have "0 \<notin> set numbers"
    using shuffleArray_set[of "[1, 2, 3, 4, 5, 6, 7, 8, 9::nat]" rng] 2(3)[symmetric] by auto
  then have "filter (\<lambda>n. n = 0) numbers = []"
    by (induction numbers) auto
  then have "count0 numbers = 0"
    by (simp add: count0_def)
  moreover have "zeros board = Suc (zerosBut board row col)"
    using findEmptyCell_Some[of board row col] 2(1,2) by (intro zeros_zerosBut) auto
  ultimately show ?case by simp
next
  case (3 board row col num numbers rng)
  show ?case
  proof (cases "num = 0")
    case True
    then show ?thesis by (simp add: count0_def)
  next
    case False
    then show ?thesis by (simp add: count0_def zeros_setCell_le)
  qed
next
  case (4 board row col num numbers rng ok rest board' rng')
  have "fst (snd (fillBoard (setCell board row col num) rng)) = setCell board row col num"
    using fill_restores(1)[OF 4(5)] 4(2,4) by (metis fst_conv)
  then have "board' = setCell board row col num"
    using 4(2,3) by (metis fst_conv snd_conv)
  then show ?case by (simp add: count0_def)
next
  case (5 board row col num numbers rng)
  then show ?case by (simp add: count0_def)
qed

declare fillBoard.simps [simp del] fillNumbers.simps [simp del]

text \<open>\<open>generateSolution()\<close>: fill an empty board; the board is returned however the filling ends.\<close>

definition generateSolution :: "rng \<Rightarrow> board \<times> rng" where
  "generateSolution rng = (case fillBoard emptyBoard rng of (ok, board, rng') \<Rightarrow> (board, rng'))"

text \<open>
  \<open>countSolutions(board, limit)\<close>: the inner \<open>solve()\<close> works on a copy of the board and on the
  counter, both returned here; \<open>solveFrom\<close> is its loop \<open>for (num = 1; num <= 9; num++)\<close>.
\<close>

function (domintros) solve :: "nat \<Rightarrow> board \<Rightarrow> nat \<Rightarrow> board \<times> nat"
  and solveFrom :: "nat \<Rightarrow> board \<Rightarrow> nat \<Rightarrow> nat \<Rightarrow> nat \<Rightarrow> nat \<Rightarrow> board \<times> nat" where
  "solve limit board cnt =
     (if cnt \<ge> limit then (board, cnt)
      else
        (case findEmptyCell board of
           None \<Rightarrow> (board, cnt + 1)
         | Some (row, col) \<Rightarrow> solveFrom limit board cnt row col 1))"
| "solveFrom limit board cnt row col num =
     (if num \<le> 9 then
        (if isValidPlacement board row col num then
           (case solve limit (setCell board row col num) cnt of
              (board', cnt') \<Rightarrow> solveFrom limit (setCell board' row col 0) cnt' row col (num + 1))
         else solveFrom limit board cnt row col (num + 1))
      else (board, cnt))"
  by pat_completeness auto

lemma solve_restores:
  "solve_solveFrom_dom (Inl (limit, board, cnt)) \<Longrightarrow> fst (solve limit board cnt) = board"
  "solve_solveFrom_dom (Inr (limit, board, cnt, row, col, num)) \<Longrightarrow>
     fst (solveFrom limit board cnt row col num) = board \<or>
     fst (solveFrom limit board cnt row col num) = setCell board row col 0"
proof (induction limit board cnt and limit board cnt row col num rule: solve_solveFrom.pinduct)
  case (1 limit board cnt)
  show ?case
  proof (cases "cnt \<ge> limit")
    case True
    with 1(1) show ?thesis by (simp add: solve.psimps)
  next
    case False
    show ?thesis
    proof (cases "findEmptyCell board")
      case None
      with 1(1) False show ?thesis by (simp add: solve.psimps)
    next
      case (Some rc)
      obtain row col where rc: "rc = (row, col)" by (cases rc)
      have e: "solve limit board cnt = solveFrom limit board cnt row col 1"
        using 1(1) Some rc False by (simp add: solve.psimps)
      have z: "setCell board row col 0 = board"
        using findEmptyCell_Some[of board row col] Some rc by (simp add: setCell_zero_id)
      from 1(2)[OF False Some rc[symmetric]] show ?thesis
        unfolding e z by auto
    qed
  qed
next
  case (2 limit board cnt row col num)
  show ?case
  proof (cases "num \<le> 9")
    case False
    with 2(1) show ?thesis by (simp add: solveFrom.psimps)
  next
    case le: True
    show ?thesis
    proof (cases "isValidPlacement board row col num")
      case False
      with 2(1,4) le show ?thesis by (simp add: solveFrom.psimps)
    next
      case True
      obtain board' cnt' where f: "solve limit (setCell board row col num) cnt = (board', cnt')"
        by (cases "solve limit (setCell board row col num) cnt")
      have b': "board' = setCell board row col num"
        using 2(2)[OF le True] f by simp
      have e: "solveFrom limit board cnt row col num =
               solveFrom limit (setCell board row col 0) cnt' row col (num + 1)"
        using 2(1) True f le b' by (simp add: solveFrom.psimps)
      from 2(3)[OF le True f[symmetric]] show ?thesis
        unfolding e b' by auto
    qed
  qed
qed

termination solve
proof (relation "inv_image (less_than <*lex*> less_than <*lex*> less_than)
    (\<lambda>x. case x of
       Inl (limit, board, cnt) \<Rightarrow> (0, 2 * zeros board, 0)
     | Inr (limit, board, cnt, row, col, num) \<Rightarrow>
         (if num = 0 then 1 else 0, 2 * zerosBut board row col + 1, 10 - num))", goal_cases)
  case 1
  then show ?case by (intro wf_inv_image wf_lex_prod wf_less_than)
next
  case (2 limit board cnt rc row col)
  have "zeros board = Suc (zerosBut board row col)"
    using findEmptyCell_Some[of board row col] 2(2,3) by (intro zeros_zerosBut) auto
  then show ?case by simp
next
  case (3 limit board cnt row col num)
  then show ?case by (simp add: zeros_setCell_le)
next
  case (4 limit board cnt row col num board' cnt')
  have "fst (solve limit (setCell board row col num) cnt) = setCell board row col num"
    using solve_restores(1)[OF 4(4)] .
  then have "board' = setCell board row col num"
    using 4(3) by (metis fst_conv)
  with 4(1) show ?case by (cases "num = 0") auto
next
  case (5 limit board cnt row col num)
  then show ?case by (cases "num = 0") auto
qed

declare solve.simps [simp del] solveFrom.simps [simp del]

definition countSolutions :: "board \<Rightarrow> nat \<Rightarrow> nat" where
  "countSolutions board limit = snd (solve limit board 0)"

section \<open>Units, solutions and completions\<close>

text \<open>\<open>getUnits()\<close>: the 27 units, 9 rows, then 9 columns, then 9 boxes, as lists of cells.\<close>

definition getUnits :: "(nat \<times> nat) list list" where
  "getUnits =
     map (\<lambda>r. map (\<lambda>c. (r, c)) [0..<9]) [0..<9] @
     map (\<lambda>c. map (\<lambda>r. (r, c)) [0..<9]) [0..<9] @
     concat (map (\<lambda>br. map (\<lambda>bc. List.product [br * 3..<br * 3 + 3] [bc * 3..<bc * 3 + 3]) [0..<3])
       [0..<3])"

text \<open>
  A solution: a 9 x 9 grid in which every unit contains each digit 1..9 exactly once (so it
  has no zeros).
\<close>

definition validSolution :: "board \<Rightarrow> bool" where
  "validSolution s =
     (wf9 s \<and>
      list_all (\<lambda>unit. list_all (\<lambda>d. count_list (map (\<lambda>(r, c). cell s r c) unit) (Some d) = 1) [1..<10])
        getUnits)"

text \<open>
  The invariant of a partial grid: every cell holds 0 or a digit, and no peer of a filled cell
  holds the same digit.
\<close>

definition consistent :: "board \<Rightarrow> bool" where
  "consistent b =
     (wf9 b \<and>
      list_all (\<lambda>(r, c). case cell b r c of
                  None \<Rightarrow> False
                | Some v \<Rightarrow> v = 0 \<or> (v \<le> 9 \<and> list_all (\<lambda>(r', c'). cell b r' c' \<noteq> Some v) (getPeers r c)))
        coords81)"

text \<open>\<open>agrees p s\<close>: every cell of \<open>p\<close> is empty or holds what \<open>s\<close> holds there.\<close>

definition agrees :: "board \<Rightarrow> board \<Rightarrow> bool" where
  "agrees p s = list_all (\<lambda>(r, c). cell p r c = Some 0 \<or> cell p r c = cell s r c) coords81"

text \<open>The completions of a partial grid: the solutions that agree with it.\<close>

definition completions :: "board \<Rightarrow> board set" where
  "completions b = {s. validSolution s \<and> agrees b s}"

text \<open>
  The fillings that the backtracking searches enumerate: every cell that is empty in \<open>b\<close> is given
  a digit that none of its peers ends up with, every other cell is kept.
\<close>

definition legalFill :: "board \<Rightarrow> board \<Rightarrow> bool" where
  "legalFill b s =
     (wf9 s \<and>
      (\<forall>r < 9. \<forall>c < 9.
         if cell b r c = Some 0
         then (\<exists>v. 1 \<le> v \<and> v \<le> 9 \<and> cell s r c = Some v) \<and>
              (\<forall>(r', c') \<in> set (getPeers r c). cell s r' c' \<noteq> cell s r c)
         else cell s r c = cell b r c))"

subsection \<open>Peers and units\<close>

definition samePeer :: "nat \<times> nat \<Rightarrow> nat \<times> nat \<Rightarrow> bool" where
  "samePeer x y = (fst x = fst y \<or> snd x = snd y \<or> (fst x div 3 = fst y div 3 \<and> snd x div 3 = snd y div 3))"

lemma getPeers_iff:
  "r < 9 \<Longrightarrow> c < 9 \<Longrightarrow>
     (r', c') \<in> set (getPeers r c) \<longleftrightarrow> r' < 9 \<and> c' < 9 \<and> (r', c') \<noteq> (r, c) \<and> samePeer (r, c) (r', c')"
  by (auto simp: getPeers_set samePeer_def)

lemma getPeers_sym:
  "r < 9 \<Longrightarrow> c < 9 \<Longrightarrow> (r', c') \<in> set (getPeers r c) \<Longrightarrow> (r, c) \<in> set (getPeers r' c')"
  by (auto simp: getPeers_iff samePeer_def)

lemma getPeers_bound:
  "r < 9 \<Longrightarrow> c < 9 \<Longrightarrow> (r', c') \<in> set (getPeers r c) \<Longrightarrow> r' < 9 \<and> c' < 9"
  by (simp add: getPeers_iff)

lemma set_getUnits:
  "set getUnits =
     (\<lambda>r. map (\<lambda>c. (r, c)) [0..<9]) ` {0..<9} \<union>
     (\<lambda>c. map (\<lambda>r. (r, c)) [0..<9]) ` {0..<9} \<union>
     (\<Union>br \<in> {0..<3}. (\<lambda>bc. List.product [br * 3..<br * 3 + 3] [bc * 3..<bc * 3 + 3]) ` {0..<3})"
  unfolding getUnits_def
  by (simp only: set_append set_map set_concat set_upt image_image Un_assoc)

lemma unit_cases:
  assumes "u \<in> set getUnits"
  obtains (row) r where "r < 9" "u = map (\<lambda>c. (r, c)) [0..<9]"
    | (col) c where "c < 9" "u = map (\<lambda>r. (r, c)) [0..<9]"
    | (box) br bc where "br < 3" "bc < 3" "u = List.product [br * 3..<br * 3 + 3] [bc * 3..<bc * 3 + 3]"
proof -
  from assms consider
      "u \<in> (\<lambda>r. map (\<lambda>c. (r, c)) [0..<9]) ` {0..<9}"
    | "u \<in> (\<lambda>c. map (\<lambda>r. (r, c)) [0..<9]) ` {0..<9}"
    | "u \<in> (\<Union>br \<in> {0..<3}. (\<lambda>bc. List.product [br * 3..<br * 3 + 3] [bc * 3..<bc * 3 + 3]) ` {0..<3})"
    unfolding set_getUnits by blast
  then show thesis
  proof cases
    case 1
    then obtain r where "r \<in> {0..<9}" "u = map (\<lambda>c. (r, c)) [0..<9]" by (rule imageE)
    then show thesis using row[of r] by (simp only: atLeastLessThan_iff)
  next
    case 2
    then obtain c where "c \<in> {0..<9}" "u = map (\<lambda>r. (r, c)) [0..<9]" by (rule imageE)
    then show thesis using col[of c] by (simp only: atLeastLessThan_iff)
  next
    case 3
    then obtain br where br: "br \<in> {0..<3}"
      "u \<in> (\<lambda>bc. List.product [br * 3..<br * 3 + 3] [bc * 3..<bc * 3 + 3]) ` {0..<3}"
      by (rule UN_E)
    from br(2) obtain bc where "bc \<in> {0..<3}"
      "u = List.product [br * 3..<br * 3 + 3] [bc * 3..<bc * 3 + 3]" by (rule imageE)
    then show thesis using box[of br bc] br(1) by (simp only: atLeastLessThan_iff)
  qed
qed

lemma unit_row:
  assumes "r < 9" "u = map (\<lambda>c. (r, c)) [0..<9]"
  shows "length u = 9 \<and> distinct u \<and> set u \<subseteq> set coords81 \<and>
         (\<forall>x \<in> set u. \<forall>y \<in> set u. samePeer x y)"
  using assms
      by (auto simp: distinct_map inj_on_def set_coords81 samePeer_def simp del: upt_rec_numeral)

lemma unit_col:
  assumes "c < 9" "u = map (\<lambda>r. (r, c)) [0..<9]"
  shows "length u = 9 \<and> distinct u \<and> set u \<subseteq> set coords81 \<and>
         (\<forall>x \<in> set u. \<forall>y \<in> set u. samePeer x y)"
  using assms
      by (auto simp: distinct_map inj_on_def set_coords81 samePeer_def simp del: upt_rec_numeral)

lemma unit_box:
  assumes "br < 3" "bc < 3" "u = List.product [br * 3..<br * 3 + 3] [bc * 3..<bc * 3 + 3]"
  shows "length u = 9 \<and> distinct u \<and> set u \<subseteq> set coords81 \<and>
         (\<forall>x \<in> set u. \<forall>y \<in> set u. samePeer x y)"
proof -
    have d: "\<And>x. br * 3 \<le> x \<Longrightarrow> x < br * 3 + 3 \<Longrightarrow> x div 3 = br"
            "\<And>x. bc * 3 \<le> x \<Longrightarrow> x < bc * 3 + 3 \<Longrightarrow> x div 3 = bc"
      by (simp_all add: div_nat_eqI mult.commute)
    have t: "br * 3 + 3 \<le> 9" "bc * 3 + 3 \<le> 9"
      using assms(1,2) by simp_all
    have l: "length u = 9" using assms(3) by simp
    have di: "distinct u" using assms(3) by (simp add: distinct_product)
    have su: "set u \<subseteq> set coords81" using assms(3) t by (auto simp: set_coords81)
    have sp: "(\<forall>x \<in> set u. \<forall>y \<in> set u. samePeer x y)"
      unfolding assms(3) samePeer_def using d by auto
    show ?thesis using l di su sp by blast 
qed

lemma unit_props:
  assumes "u \<in> set getUnits"
  shows "length u = 9 \<and> distinct u \<and> set u \<subseteq> set coords81 \<and>
         (\<forall>x \<in> set u. \<forall>y \<in> set u. samePeer x y)"
  using assms by (cases rule: unit_cases) (rule unit_row unit_col unit_box; assumption)+

lemma peers_share_unit:
  assumes "fst x < 9" "snd x < 9" "fst y < 9" "snd y < 9" "samePeer x y"
  shows "\<exists>u \<in> set getUnits. x \<in> set u \<and> y \<in> set u"
proof -
  obtain r c r' c' where xy: "x = (r, c)" "y = (r', c')" by (cases x, cases y)
  from assms(5) consider "r = r'" | "c = c'" | "r div 3 = r' div 3 \<and> c div 3 = c' div 3"
    unfolding samePeer_def xy by auto
  then show ?thesis
  proof cases
    case 1
    have "map (\<lambda>c. (r, c)) [0..<9] \<in> (\<lambda>r. map (\<lambda>c. (r, c)) [0..<9]) ` {0..<9}"
      using assms(1) unfolding xy by (intro image_eqI[of _ _ r]) simp_all
    then have "map (\<lambda>c. (r, c)) [0..<9] \<in> set getUnits"
      unfolding set_getUnits by blast
    moreover have "(r, c) \<in> set (map (\<lambda>c. (r, c)) [0..<9])" "(r', c') \<in> set (map (\<lambda>c. (r, c)) [0..<9])"
      using assms(2,4) 1 unfolding xy by (auto simp del: upt_rec_numeral)
    ultimately show ?thesis unfolding xy by blast
  next
    case 2
    have "map (\<lambda>r. (r, c)) [0..<9] \<in> (\<lambda>c. map (\<lambda>r. (r, c)) [0..<9]) ` {0..<9}"
      using assms(2) unfolding xy by (intro image_eqI[of _ _ c]) simp_all
    then have "map (\<lambda>r. (r, c)) [0..<9] \<in> set getUnits"
      unfolding set_getUnits by blast
    moreover have "(r, c) \<in> set (map (\<lambda>r. (r, c)) [0..<9])" "(r', c') \<in> set (map (\<lambda>r. (r, c)) [0..<9])"
      using assms(1,3) 2 unfolding xy by (auto simp del: upt_rec_numeral)
    ultimately show ?thesis unfolding xy by blast
  next
    case 3
    have b: "r div 3 < 3" "c div 3 < 3"
      using assms(1,2) unfolding xy by (simp_all add: div_less_iff_less_mult)
    then have "List.product [r div 3 * 3..<r div 3 * 3 + 3] [c div 3 * 3..<c div 3 * 3 + 3] \<in>
        (\<Union>br \<in> {0..<3}. (\<lambda>bc. List.product [br * 3..<br * 3 + 3] [bc * 3..<bc * 3 + 3]) ` {0..<3})"
      by (intro UN_I[of "r div 3"] image_eqI[of _ _ "c div 3"]) simp_all
    then have "List.product [r div 3 * 3..<r div 3 * 3 + 3] [c div 3 * 3..<c div 3 * 3 + 3] \<in> set getUnits"
      unfolding set_getUnits by blast
    moreover have "(r, c) \<in> set (List.product [r div 3 * 3..<r div 3 * 3 + 3] [c div 3 * 3..<c div 3 * 3 + 3])"
      "(r', c') \<in> set (List.product [r div 3 * 3..<r div 3 * 3 + 3] [c div 3 * 3..<c div 3 * 3 + 3])"
      using 3 box_bounds[of r r] box_bounds[of r r'] box_bounds[of c c] box_bounds[of c c']
      by simp_all
    ultimately show ?thesis unfolding xy by blast
  qed
qed

subsection \<open>Solutions are the full grids without clashes\<close>

definition fullConsistent :: "board \<Rightarrow> bool" where
  "fullConsistent s =
     (\<forall>r < 9. \<forall>c < 9. (\<exists>v. 1 \<le> v \<and> v \<le> 9 \<and> cell s r c = Some v) \<and>
        (\<forall>(r', c') \<in> set (getPeers r c). cell s r' c' \<noteq> cell s r c))"

lemma fullConsistent_digit:
  "fullConsistent s \<Longrightarrow> r < 9 \<Longrightarrow> c < 9 \<Longrightarrow> \<exists>v. 1 \<le> v \<and> v \<le> 9 \<and> cell s r c = Some v"
  unfolding fullConsistent_def by blast

lemma fullConsistent_peer:
  "fullConsistent s \<Longrightarrow> r < 9 \<Longrightarrow> c < 9 \<Longrightarrow> (r', c') \<in> set (getPeers r c) \<Longrightarrow>
     cell s r' c' \<noteq> cell s r c"
  unfolding fullConsistent_def by blast

lemma count_list_distinct: "distinct xs \<Longrightarrow> x \<in> set xs \<Longrightarrow> count_list xs x = 1"
  by (induction xs) auto

lemma digits_image: "Some ` {1..9::nat} = set (map Some [1..<10])"
  by auto

lemma unit_values:
  assumes "validSolution s" "u \<in> set getUnits"
  shows "set (map (\<lambda>(r, c). cell s r c) u) = Some ` {1..9} \<and> distinct (map (\<lambda>(r, c). cell s r c) u)"
proof -
  let ?vals = "map (\<lambda>(r, c). cell s r c) u"
  have len: "length ?vals = 9" using unit_props[OF assms(2)] by simp
  have cnt: "\<And>d. 1 \<le> d \<Longrightarrow> d \<le> 9 \<Longrightarrow> count_list ?vals (Some d) = 1"
    using assms unfolding validSolution_def list_all_iff by auto
  have sub: "Some ` {1..9} \<subseteq> set ?vals"
  proof
    fix x assume "x \<in> Some ` {1..9::nat}"
    then obtain d where "x = Some d" "1 \<le> d" "d \<le> 9" by auto
    with cnt[of d] show "x \<in> set ?vals"
      by (metis count_list_0_iff zero_neq_one)
  qed
  have "card (Some ` {1..9::nat}) = 9"
    by (simp add: card_image)
  moreover have "card (set ?vals) \<le> 9"
    using card_length[of ?vals] len by simp
  ultimately have eq: "set ?vals = Some ` {1..9}"
    using sub by (metis card_seteq List.finite_set)
  then have "card (set ?vals) = length ?vals"
    using len \<open>card (Some ` {1..9::nat}) = 9\<close> by simp
  then show ?thesis using eq by (simp add: card_distinct)
qed

lemma validSolution_fullConsistent:
  assumes "validSolution s"
  shows "fullConsistent s"
  unfolding fullConsistent_def
proof (intro allI impI conjI)
  fix r c :: nat assume rc: "r < 9" "c < 9"
  have "samePeer (r, c) (r, c)" by (simp add: samePeer_def)
  then obtain u where u: "u \<in> set getUnits" "(r, c) \<in> set u"
    using peers_share_unit[of "(r, c)" "(r, c)"] rc by auto
  have "cell s r c \<in> set (map (\<lambda>(r, c). cell s r c) u)"
    using u(2) by force
  then show "\<exists>v. 1 \<le> v \<and> v \<le> 9 \<and> cell s r c = Some v"
    using unit_values[OF assms u(1)] by auto
  show "\<forall>(r', c') \<in> set (getPeers r c). cell s r' c' \<noteq> cell s r c"
  proof (clarify)
    fix r' c' assume p: "(r', c') \<in> set (getPeers r c)" and e: "cell s r' c' = cell s r c"
    from p have p': "r' < 9" "c' < 9" "(r', c') \<noteq> (r, c)" "samePeer (r, c) (r', c')"
      using rc by (simp_all add: getPeers_iff)
    obtain w where w: "w \<in> set getUnits" "(r, c) \<in> set w" "(r', c') \<in> set w"
      using peers_share_unit[of "(r, c)" "(r', c')"] rc p' by auto
    have "inj_on (\<lambda>(r, c). cell s r c) (set w)"
      using unit_values[OF assms w(1)] unit_props[OF w(1)] by (simp add: distinct_map)
    from inj_onD[OF this _ w(3,2)] e p'(3) show False by auto
  qed
qed

lemma fullConsistent_validSolution:
  assumes "wf9 s" "fullConsistent s"
  shows "validSolution s"
  unfolding validSolution_def list_all_iff
proof (intro conjI ballI)
  show "wf9 s" by fact
  fix u d assume u: "u \<in> set getUnits" and d: "d \<in> set [1..<10]"
  let ?f = "\<lambda>(r, c). cell s r c"
  let ?vals = "map ?f u"
  note up = unit_props[OF u]
  have sub: "set ?vals \<subseteq> Some ` {1..9}"
  proof
    fix x assume "x \<in> set ?vals"
    then obtain r c where rc: "(r, c) \<in> set u" "x = cell s r c" by auto
    from this up have "r < 9" "c < 9" by (auto simp: set_coords81)
    then obtain v where "1 \<le> v" "v \<le> 9" "cell s r c = Some v"
      using fullConsistent_digit[OF assms(2)] by blast
    then show "x \<in> Some ` {1..9}"
      unfolding rc(2) by simp
  qed
  have inj: "inj_on ?f (set u)"
  proof (rule inj_onI)
    fix x y assume xy: "x \<in> set u" "y \<in> set u" "?f x = ?f y"
    obtain r c r' c' where e: "x = (r, c)" "y = (r', c')" by (cases x, cases y)
    have b: "r < 9" "c < 9" "r' < 9" "c' < 9"
      using xy(1,2) up unfolding e by (auto simp: set_coords81)
    show "x = y"
    proof (rule ccontr)
      assume "x \<noteq> y"
      then have "(r', c') \<in> set (getPeers r c)"
        using up xy(1,2) b unfolding e by (auto simp: getPeers_iff)
      then have "cell s r' c' \<noteq> cell s r c"
        using fullConsistent_peer[OF assms(2)] b by blast
      with xy(3) show False unfolding e by simp
    qed
  qed
  have dist: "distinct ?vals"
    using up inj by (simp add: distinct_map)
  then have "card (set ?vals) = length ?vals"
    by (rule distinct_card)
  then have "card (set ?vals) = 9"
    using up by simp
  moreover have "card (Some ` {1..9::nat}) = 9"
    by (simp add: card_image)
  ultimately have "set ?vals = Some ` {1..9}"
    using sub by (metis card_seteq finite_imageI finite_atLeastAtMost order_refl)
  then have "Some d \<in> set ?vals" using d by auto
  with dist show "count_list ?vals (Some d) = 1"
    by (simp add: count_list_distinct)
qed

subsection \<open>The fillings enumerated by the search\<close>

lemma wf9_ext:
  assumes "wf9 a" "wf9 b" "\<And>r c. r < 9 \<Longrightarrow> c < 9 \<Longrightarrow> cell a r c = cell b r c"
  shows "a = b"
proof (rule nth_equalityI)
  show "length a = length b" using assms(1,2) by (simp add: wf9_def)
  fix i assume "i < length a"
  then have i: "i < 9" using assms(1) by (simp add: wf9_def)
  show "a ! i = b ! i"
  proof (rule nth_equalityI)
    show "length (a ! i) = length (b ! i)"
      using assms(1,2) i by (simp add: wf9_def list_all_length)
    fix j assume "j < length (a ! i)"
    then have "j < 9" using assms(1) i by (simp add: wf9_def list_all_length)
    then show "a ! i ! j = b ! i ! j"
      using assms(3)[OF i] wf9_cell[OF assms(1) i] wf9_cell[OF assms(2) i] by simp
  qed
qed

lemma legalFill_wf: "legalFill b s \<Longrightarrow> wf9 s"
  by (simp add: legalFill_def)

lemma legalFill_digit:
  "legalFill b s \<Longrightarrow> r < 9 \<Longrightarrow> c < 9 \<Longrightarrow> cell b r c = Some 0 \<Longrightarrow>
     \<exists>v. 1 \<le> v \<and> v \<le> 9 \<and> cell s r c = Some v"
  unfolding legalFill_def by meson

lemma legalFill_peer:
  assumes "legalFill b s" "r < 9" "c < 9" "cell b r c = Some 0" "(r', c') \<in> set (getPeers r c)"
  shows "cell s r' c' \<noteq> cell s r c"
proof -
  have "\<forall>(r', c') \<in> set (getPeers r c). cell s r' c' \<noteq> cell s r c"
    using assms(1-4) unfolding legalFill_def by meson
  then show ?thesis using assms(5) by auto
qed

lemma legalFill_keep:
  "legalFill b s \<Longrightarrow> r < 9 \<Longrightarrow> c < 9 \<Longrightarrow> cell b r c \<noteq> Some 0 \<Longrightarrow> cell s r c = cell b r c"
  unfolding legalFill_def by meson

lemma legalFillI:
  assumes "wf9 s"
    and "\<And>r c. r < 9 \<Longrightarrow> c < 9 \<Longrightarrow> cell b r c = Some 0 \<Longrightarrow>
           \<exists>v. 1 \<le> v \<and> v \<le> 9 \<and> cell s r c = Some v"
    and "\<And>r c r' c'. r < 9 \<Longrightarrow> c < 9 \<Longrightarrow> cell b r c = Some 0 \<Longrightarrow>
           (r', c') \<in> set (getPeers r c) \<Longrightarrow> cell s r' c' \<noteq> cell s r c"
    and "\<And>r c. r < 9 \<Longrightarrow> c < 9 \<Longrightarrow> cell b r c \<noteq> Some 0 \<Longrightarrow> cell s r c = cell b r c"
  shows "legalFill b s"
  unfolding legalFill_def using assms by auto

lemma legalFill_full:
  assumes "wf9 b" "findEmptyCell b = None"
  shows "legalFill b s \<longleftrightarrow> s = b"
proof
  have nz: "\<And>r c. r < 9 \<Longrightarrow> c < 9 \<Longrightarrow> cell b r c \<noteq> Some 0"
    using assms(2) unfolding findEmptyCell_None set_coords81 by auto
  show "legalFill b s \<Longrightarrow> s = b"
    using legalFill_keep[of b s] nz legalFill_wf[of b s] assms(1) by (intro wf9_ext) auto
  show "s = b \<Longrightarrow> legalFill b s"
    using nz assms(1) by (intro legalFillI) auto
qed

lemma legalFill_step:
  assumes "wf9 b" "r < 9" "c < 9" "cell b r c = Some 0"
  shows "legalFill b s \<longleftrightarrow>
           (\<exists>v. 1 \<le> v \<and> v \<le> 9 \<and> isValidPlacement b r c v \<and> legalFill (setCell b r c v) s)"
proof
  assume l: "legalFill b s"
  obtain v where v: "1 \<le> v" "v \<le> 9" "cell s r c = Some v"
    using legalFill_digit[OF l assms(2,3,4)] by blast
  have inr: "r < length b" "c < length (b ! r)"
    using cell_Some_range[OF assms(4)] by simp_all
  have valid: "isValidPlacement b r c v"
    unfolding isValidPlacement_peers[OF assms(2,3)]
  proof (intro conjI ballI)
    show "cell b r c \<noteq> Some v" using assms(4) v(1) by simp
    fix p assume p: "p \<in> set (getPeers r c)"
    obtain r' c' where e: "p = (r', c')" by (cases p)
    have pb: "r' < 9" "c' < 9" using getPeers_bound[OF assms(2,3)] p e by auto
    have "cell b r' c' \<noteq> Some v"
    proof
      assume h: "cell b r' c' = Some v"
      then have "cell b r' c' \<noteq> Some 0" using v(1) by simp
      then have "cell s r' c' = Some v" using legalFill_keep[OF l pb] h by simp
      moreover have "cell s r' c' \<noteq> cell s r c"
        using legalFill_peer[OF l assms(2,3,4)] p e by simp
      ultimately show False using v(3) by simp
    qed
    then show "case p of (r', c') \<Rightarrow> cell b r' c' \<noteq> Some v" unfolding e by simp
  qed
  have "legalFill (setCell b r c v) s"
  proof (rule legalFillI)
    show "wf9 s" using legalFill_wf[OF l] .
  next
    fix r' c' assume "r' < 9" "c' < 9" "cell (setCell b r c v) r' c' = Some 0"
    then show "\<exists>v. 1 \<le> v \<and> v \<le> 9 \<and> cell s r' c' = Some v"
      using legalFill_digit[OF l, of r' c'] v(1) by (auto simp: cell_setCell split: if_splits)
  next
    fix r' c' r'' c'' assume "r' < 9" "c' < 9" "cell (setCell b r c v) r' c' = Some 0"
      "(r'', c'') \<in> set (getPeers r' c')"
    then show "cell s r'' c'' \<noteq> cell s r' c'"
      using legalFill_peer[OF l, of r' c' r'' c''] v(1) by (auto simp: cell_setCell split: if_splits)
  next
    fix r' c' assume "r' < 9" "c' < 9" "cell (setCell b r c v) r' c' \<noteq> Some 0"
    then show "cell s r' c' = cell (setCell b r c v) r' c'"
      using legalFill_keep[OF l, of r' c'] v(3) inr by (auto simp: cell_setCell)
  qed
  with v valid show "\<exists>v. 1 \<le> v \<and> v \<le> 9 \<and> isValidPlacement b r c v \<and> legalFill (setCell b r c v) s"
    by blast
next
  assume "\<exists>v. 1 \<le> v \<and> v \<le> 9 \<and> isValidPlacement b r c v \<and> legalFill (setCell b r c v) s"
  then obtain v where v: "1 \<le> v" "v \<le> 9" "isValidPlacement b r c v"
    and l: "legalFill (setCell b r c v) s" by blast
  have inr: "r < length b" "c < length (b ! r)"
    using cell_Some_range[OF assms(4)] by simp_all
  have cv: "cell (setCell b r c v) r c = Some v"
    using inr by (simp add: cell_setCell)
  have sv: "cell s r c = Some v"
    using legalFill_keep[OF l assms(2,3)] cv v(1) by simp
  show "legalFill b s"
  proof (rule legalFillI)
    show "wf9 s" using legalFill_wf[OF l] .
  next
    fix r' c' assume h: "r' < 9" "c' < 9" "cell b r' c' = Some 0"
    show "\<exists>v. 1 \<le> v \<and> v \<le> 9 \<and> cell s r' c' = Some v"
    proof (cases "r' = r \<and> c' = c")
      case True
      then show ?thesis using v sv by auto
    next
      case False
      then have "cell (setCell b r c v) r' c' = Some 0" using h(3) by (auto simp: cell_setCell)
      then show ?thesis using legalFill_digit[OF l h(1,2)] by simp
    qed
  next
    fix r' c' r'' c'' assume h: "r' < 9" "c' < 9" "cell b r' c' = Some 0"
      "(r'', c'') \<in> set (getPeers r' c')"
    show "cell s r'' c'' \<noteq> cell s r' c'"
    proof (cases "r' = r \<and> c' = c")
      case False
      then have "cell (setCell b r c v) r' c' = Some 0" using h(3) by (auto simp: cell_setCell)
      then show ?thesis using legalFill_peer[OF l h(1,2) _ h(4)] by simp
    next
      case True
      have pb: "r'' < 9" "c'' < 9" "(r'', c'') \<noteq> (r, c)"
        using h(4) True assms(2,3) by (auto simp: getPeers_iff)
      have nv: "cell b r'' c'' \<noteq> Some v"
        using v(3) h(4) True unfolding isValidPlacement_peers[OF assms(2,3)] by auto
      have same: "cell (setCell b r c v) r'' c'' = cell b r'' c''"
        using pb(3) by (auto simp: cell_setCell)
      show ?thesis
      proof (cases "cell b r'' c'' = Some 0")
        case z: True
        have "(r, c) \<in> set (getPeers r'' c'')"
          using getPeers_sym[OF assms(2,3)] h(4) True by simp
        then have "cell s r c \<noteq> cell s r'' c''"
          using legalFill_peer[OF l pb(1,2), of r c] z same by simp
        then show ?thesis using True by auto
      next
        case nz: False
        then have "cell s r'' c'' = cell b r'' c''"
          using legalFill_keep[OF l pb(1,2)] same by simp
        then show ?thesis using nv sv True by simp
      qed
    qed
  next
    fix r' c' assume h: "r' < 9" "c' < 9" "cell b r' c' \<noteq> Some 0"
    then have ne: "\<not> (r' = r \<and> c' = c)" using assms(4) by auto
    then have "cell (setCell b r c v) r' c' = cell b r' c'" by (auto simp: cell_setCell)
    then show "cell s r' c' = cell b r' c'"
      using legalFill_keep[OF l h(1,2)] h(3) by simp
  qed
qed

lemma legalFill_placed:
  assumes "cell b r c = Some 0" "r < 9" "c < 9" "v \<noteq> 0" "legalFill (setCell b r c v) s"
  shows "cell s r c = Some v"
proof -
  have "cell (setCell b r c v) r c = Some v"
    using cell_Some_range[OF assms(1)] by (simp add: cell_setCell)
  then show ?thesis using legalFill_keep[OF assms(5,2,3)] assms(4) by simp
qed

text \<open>There are finitely many fillings.\<close>

lemma finite_boards: "finite {s::board. wf9 s \<and> (\<forall>row \<in> set s. set row \<subseteq> {..n})}"
proof -
  have "finite {row::nat list. set row \<subseteq> {..n} \<and> length row = 9}"
    by (rule finite_lists_length_eq) simp
  then have "finite {s::board. set s \<subseteq> {row. set row \<subseteq> {..n} \<and> length row = 9} \<and> length s = 9}"
    by (rule finite_lists_length_eq)
  moreover have "{s::board. wf9 s \<and> (\<forall>row \<in> set s. set row \<subseteq> {..n})} \<subseteq>
      {s::board. set s \<subseteq> {row. set row \<subseteq> {..n} \<and> length row = 9} \<and> length s = 9}"
    by (auto simp: wf9_def list_all_iff)
  ultimately show ?thesis by (rule rev_finite_subset)
qed

definition maxCell :: "board \<Rightarrow> nat" where
  "maxCell b = Max (insert 9 (\<Union>row \<in> set b. set row))"

lemma maxCell_ge: "row \<in> set b \<Longrightarrow> x \<in> set row \<Longrightarrow> x \<le> maxCell b"
  unfolding maxCell_def by (intro Max_ge) auto

lemma finite_legalFill:
  assumes "wf9 b"
  shows "finite {s. legalFill b s}"
proof (rule finite_subset[OF _ finite_boards[of "maxCell b"]], clarify, intro conjI ballI subsetI)
  fix s assume l: "legalFill b s"
  show "wf9 s" using legalFill_wf[OF l] .
  fix row x assume rx: "row \<in> set s" "x \<in> set row"
  have w: "wf9 s" using legalFill_wf[OF l] .
  obtain r where r: "r < 9" "row = s ! r"
    using rx(1) w by (auto simp: in_set_conv_nth wf9_def)
  have "length row = 9" using w rx(1) by (auto simp: wf9_def list_all_iff)
  then obtain c where c: "c < 9" "x = row ! c"
    using rx(2) by (auto simp: in_set_conv_nth)
  have cs: "cell s r c = Some x" using wf9_cell[OF w r(1) c(1)] r c by simp
  have cb: "cell b r c = Some (b ! r ! c)" using wf9_cell[OF assms r(1) c(1)] .
  have mem: "b ! r \<in> set b" "b ! r ! c \<in> set (b ! r)"
    using assms r(1) c(1) by (auto simp: wf9_def list_all_length)
  show "x \<in> {..maxCell b}"
  proof (cases "cell b r c = Some 0")
    case True
    then obtain v where "v \<le> 9" "cell s r c = Some v"
      using legalFill_digit[OF l r(1) c(1)] by blast
    moreover have "9 \<le> maxCell b" unfolding maxCell_def by (intro Max_ge) auto
    ultimately show ?thesis using cs by simp
  next
    case False
    then have "cell s r c = cell b r c" using legalFill_keep[OF l r(1) c(1)] by simp
    then have "x = b ! r ! c" using cs cb by simp
    then show ?thesis using maxCell_ge[OF mem] by simp
  qed
qed

subsection \<open>What the counter computes\<close>

definition capped :: "nat \<Rightarrow> nat \<Rightarrow> nat \<Rightarrow> nat" where
  "capped limit cnt n = (if limit \<le> cnt then cnt else min limit (cnt + n))"

lemma capped_capped: "capped limit (capped limit cnt n) m = capped limit cnt (n + m)"
  by (auto simp: capped_def min_def)

definition fillsFrom :: "board \<Rightarrow> nat \<Rightarrow> nat \<Rightarrow> nat \<Rightarrow> board set" where
  "fillsFrom b r c num =
     {s. \<exists>v. num \<le> v \<and> v \<le> 9 \<and> isValidPlacement b r c v \<and> legalFill (setCell b r c v) s}"

lemma fillsFrom_finite:
  assumes "wf9 b"
  shows "finite (fillsFrom b r c num)"
proof -
  have "fillsFrom b r c num \<subseteq> (\<Union>v \<in> {..9}. {s. legalFill (setCell b r c v) s})"
    unfolding fillsFrom_def by auto
  moreover have "finite (\<Union>v \<in> {..9::nat}. {s. legalFill (setCell b r c v) s})"
    using assms by (intro finite_UN_I finite_legalFill) simp_all
  ultimately show ?thesis by (rule finite_subset)
qed

lemma fillsFrom_step:
  assumes "cell b r c = Some 0" "r < 9" "c < 9" "1 \<le> num" "num \<le> 9"
  shows "fillsFrom b r c num =
           (if isValidPlacement b r c num then {s. legalFill (setCell b r c num) s} else {}) \<union>
           fillsFrom b r c (num + 1)"
    and "{s. legalFill (setCell b r c num) s} \<inter> fillsFrom b r c (num + 1) = {}"
proof -
  show "fillsFrom b r c num =
           (if isValidPlacement b r c num then {s. legalFill (setCell b r c num) s} else {}) \<union>
           fillsFrom b r c (num + 1)"
  proof (intro set_eqI iffI)
    fix s assume "s \<in> fillsFrom b r c num"
    then obtain v where v: "num \<le> v" "v \<le> 9" "isValidPlacement b r c v" "legalFill (setCell b r c v) s"
      unfolding fillsFrom_def by blast
    show "s \<in> (if isValidPlacement b r c num then {s. legalFill (setCell b r c num) s} else {}) \<union>
           fillsFrom b r c (num + 1)"
    proof (cases "v = num")
      case True
      then show ?thesis using v by simp
    next
      case False
      then have "num + 1 \<le> v" using v(1) by simp
      then show ?thesis using v unfolding fillsFrom_def by blast
    qed
  next
    fix s assume "s \<in> (if isValidPlacement b r c num then {s. legalFill (setCell b r c num) s} else {}) \<union>
           fillsFrom b r c (num + 1)"
    then consider "isValidPlacement b r c num" "legalFill (setCell b r c num) s"
      | v where "num + 1 \<le> v" "v \<le> 9" "isValidPlacement b r c v" "legalFill (setCell b r c v) s"
      unfolding fillsFrom_def by (auto split: if_splits)
    then show "s \<in> fillsFrom b r c num"
    proof cases
      case 1
      then show ?thesis using assms(5) unfolding fillsFrom_def by blast
    next
      case 2
      then have "num \<le> v" by simp
      with 2 show ?thesis unfolding fillsFrom_def by blast
    qed
  qed
  show "{s. legalFill (setCell b r c num) s} \<inter> fillsFrom b r c (num + 1) = {}"
  proof (rule ccontr)
    assume "{s. legalFill (setCell b r c num) s} \<inter> fillsFrom b r c (num + 1) \<noteq> {}"
    then obtain s v where s: "legalFill (setCell b r c num) s" "num + 1 \<le> v"
      "legalFill (setCell b r c v) s"
      unfolding fillsFrom_def by blast
    have "cell s r c = Some num" "cell s r c = Some v"
      using legalFill_placed[OF assms(1,2,3) _ s(1)] legalFill_placed[OF assms(1,2,3) _ s(3)]
        assms(4) s(2) by simp_all
    with s(2) show False by simp
  qed
qed

lemma fillsFrom_beyond: "9 < num \<Longrightarrow> fillsFrom b r c num = {}"
  unfolding fillsFrom_def by auto

lemma fillsFrom_all:
  assumes "wf9 b" "r < 9" "c < 9" "cell b r c = Some 0"
  shows "fillsFrom b r c 1 = {s. legalFill b s}"
  unfolding fillsFrom_def using legalFill_step[OF assms] by auto

lemma solve_counts:
  "wf9 b \<Longrightarrow> solve limit b cnt = (b, capped limit cnt (card {s. legalFill b s}))"
  "wf9 b \<Longrightarrow> r < 9 \<Longrightarrow> c < 9 \<Longrightarrow> cell b r c = Some 0 \<Longrightarrow> 1 \<le> num \<Longrightarrow>
     solveFrom limit b cnt r c num = (b, capped limit cnt (card (fillsFrom b r c num)))"
proof (induction limit b cnt and limit b cnt r c num rule: solve_solveFrom.induct)
  case (1 limit board cnt)
  show ?case
  proof (cases "limit \<le> cnt")
    case True
    then show ?thesis by (simp add: capped_def solve.simps[of limit board cnt])
  next
    case False
    show ?thesis
    proof (cases "findEmptyCell board")
      case None
      have "{s. legalFill board s} = {board}"
        using legalFill_full[OF "1.prems" None] by auto
      then show ?thesis
        using False None by (simp add: capped_def solve.simps[of limit board cnt])
    next
      case (Some rc)
      obtain row col where rc: "rc = (row, col)" by (cases rc)
      have e: "row < 9" "col < 9" "cell board row col = Some 0"
        using findEmptyCell_Some[of board row col] Some rc by (auto simp: set_coords81)
      have "solveFrom limit board cnt row col 1 =
              (board, capped limit cnt (card (fillsFrom board row col 1)))"
        using "1.IH"[OF _ Some rc[symmetric] "1.prems" e] False by simp
      then show ?thesis
        using False Some rc fillsFrom_all[OF "1.prems" e]
        by (simp add: solve.simps[of limit board cnt])
    qed
  qed
next
  case (2 limit board cnt row col num)
  note wf = "2.prems"(1) and rc = "2.prems"(2,3) and z = "2.prems"(4) and n1 = "2.prems"(5)
  note unf = solveFrom.simps[of limit board cnt row col num]
  show ?case
  proof (cases "num \<le> 9")
    case False
    then show ?thesis
      using fillsFrom_beyond[of num board row col] by (simp add: capped_def unf)
  next
    case le: True
    note step = fillsFrom_step[OF z rc n1 le]
    show ?thesis
    proof (cases "isValidPlacement board row col num")
      case False
      have "solveFrom limit board cnt row col (num + 1) =
              (board, capped limit cnt (card (fillsFrom board row col (num + 1))))"
        using "2.IH"(3)[OF le False wf rc z] by simp
      then show ?thesis using le False step(1) by (simp add: unf)
    next
      case True
      let ?b' = "setCell board row col num"
      have s1: "solve limit ?b' cnt = (?b', capped limit cnt (card {s. legalFill ?b' s}))"
        using "2.IH"(1)[OF le True] wf by simp
      have undo: "setCell ?b' row col 0 = board"
        using setCell_zero_id[OF z] by simp
      have s2: "solveFrom limit board (capped limit cnt (card {s. legalFill ?b' s})) row col (num + 1) =
          (board, capped limit (capped limit cnt (card {s. legalFill ?b' s}))
             (card (fillsFrom board row col (num + 1))))"
        using "2.IH"(2)[OF le True s1[symmetric]] wf rc z unfolding undo by simp
      have fin: "finite {s. legalFill ?b' s}" "finite (fillsFrom board row col (num + 1))"
        using finite_legalFill[of ?b'] fillsFrom_finite[OF wf] wf by simp_all
      have "card (fillsFrom board row col num) =
            card {s. legalFill ?b' s} + card (fillsFrom board row col (num + 1))"
        using step True fin by (simp add: card_Un_disjoint)
      then show ?thesis
        using le True s1 s2 undo by (simp add: capped_capped unf)
    qed
  qed
qed

lemma countSolutions_legalFill:
  "wf9 b \<Longrightarrow> countSolutions b limit = min limit (card {s. legalFill b s})"
  unfolding countSolutions_def by (simp add: solve_counts(1) capped_def)

subsection \<open>Fillings and completions\<close>

lemma consistent_wf: "consistent b \<Longrightarrow> wf9 b"
  by (simp add: consistent_def)

lemma consistent_cell:
  assumes "consistent b" "r < 9" "c < 9"
  shows "\<exists>v. cell b r c = Some v \<and> v \<le> 9"
proof -
  have "(r, c) \<in> set coords81" using assms(2,3) by (simp add: set_coords81)
  then have "case cell b r c of None \<Rightarrow> False
      | Some v \<Rightarrow> v = 0 \<or> (v \<le> 9 \<and> list_all (\<lambda>(r', c'). cell b r' c' \<noteq> Some v) (getPeers r c))"
    using assms(1) unfolding consistent_def list_all_iff by auto
  then show ?thesis by (auto split: option.splits)
qed

lemma consistent_peer:
  assumes "consistent b" "r < 9" "c < 9" "cell b r c = Some v" "v \<noteq> 0"
    "(r', c') \<in> set (getPeers r c)"
  shows "cell b r' c' \<noteq> Some v"
proof -
  have "(r, c) \<in> set coords81" using assms(2,3) by (simp add: set_coords81)
  then have "case cell b r c of None \<Rightarrow> False
      | Some v \<Rightarrow> v = 0 \<or> (v \<le> 9 \<and> list_all (\<lambda>(r', c'). cell b r' c' \<noteq> Some v) (getPeers r c))"
    using assms(1) unfolding consistent_def list_all_iff by auto
  then have "list_all (\<lambda>(r', c'). cell b r' c' \<noteq> Some v) (getPeers r c)"
    using assms(4,5) by simp
  then show ?thesis using assms(6) unfolding list_all_iff by auto
qed

lemma consistentI:
  assumes "wf9 b"
    and "\<And>r c. r < 9 \<Longrightarrow> c < 9 \<Longrightarrow> \<exists>v. cell b r c = Some v \<and> v \<le> 9"
    and "\<And>r c v r' c'. r < 9 \<Longrightarrow> c < 9 \<Longrightarrow> cell b r c = Some v \<Longrightarrow> v \<noteq> 0 \<Longrightarrow>
           (r', c') \<in> set (getPeers r c) \<Longrightarrow> cell b r' c' \<noteq> Some v"
  shows "consistent b"
  unfolding consistent_def list_all_iff set_coords81
proof (intro conjI ballI, fact, clarify)
  fix r c :: nat assume rc: "r < 9" "c < 9"
  obtain v where v: "cell b r c = Some v" "v \<le> 9" using assms(2)[OF rc] by blast
  show "case cell b r c of None \<Rightarrow> False
      | Some v \<Rightarrow> v = 0 \<or> (v \<le> 9 \<and> (\<forall>x \<in> set (getPeers r c). case x of (r', c') \<Rightarrow> cell b r' c' \<noteq> Some v))"
    using v assms(3)[OF rc v(1)] by auto
qed

lemma agrees_iff:
  "agrees p s \<longleftrightarrow> (\<forall>r < 9. \<forall>c < 9. cell p r c = Some 0 \<or> cell p r c = cell s r c)"
  unfolding agrees_def list_all_iff set_coords81 by auto

lemma agrees_cases:
  "agrees p s \<Longrightarrow> r < 9 \<Longrightarrow> c < 9 \<Longrightarrow> cell p r c = Some 0 \<or> cell p r c = cell s r c"
  unfolding agrees_iff by blast

lemma agrees_keep:
  assumes "agrees p s" "r < 9" "c < 9" "cell p r c \<noteq> Some 0"
  shows "cell s r c = cell p r c"
proof -
  have "cell p r c = Some 0 \<or> cell p r c = cell s r c"
    using assms(1,2,3) unfolding agrees_iff by blast
  then show ?thesis using assms(4) by simp
qed

lemma validSolution_wf: "validSolution s \<Longrightarrow> wf9 s"
  by (simp add: validSolution_def)

lemma validSolution_legalFill:
  assumes "validSolution s" "agrees b s"
  shows "legalFill b s"
proof (rule legalFillI)
  note fc = validSolution_fullConsistent[OF assms(1)]
  show "wf9 s" using assms(1) by (rule validSolution_wf)
  show "\<And>r c. r < 9 \<Longrightarrow> c < 9 \<Longrightarrow> cell b r c = Some 0 \<Longrightarrow> \<exists>v. 1 \<le> v \<and> v \<le> 9 \<and> cell s r c = Some v"
    using fullConsistent_digit[OF fc] by simp
  show "\<And>r c r' c'. r < 9 \<Longrightarrow> c < 9 \<Longrightarrow> cell b r c = Some 0 \<Longrightarrow>
           (r', c') \<in> set (getPeers r c) \<Longrightarrow> cell s r' c' \<noteq> cell s r c"
    using fullConsistent_peer[OF fc] by simp
  show "\<And>r c. r < 9 \<Longrightarrow> c < 9 \<Longrightarrow> cell b r c \<noteq> Some 0 \<Longrightarrow> cell s r c = cell b r c"
    using agrees_keep[OF assms(2)] by blast
qed

lemma legalFill_validSolution:
  assumes "consistent b" "legalFill b s"
  shows "validSolution s \<and> agrees b s"
proof
  have fc: "fullConsistent s"
    unfolding fullConsistent_def
  proof (intro allI impI conjI ballI)
    fix r c :: nat assume rc: "r < 9" "c < 9"
    show dg: "\<exists>v. 1 \<le> v \<and> v \<le> 9 \<and> cell s r c = Some v"
    proof (cases "cell b r c = Some 0")
      case True
      then show ?thesis using legalFill_digit[OF assms(2) rc] by simp
    next
      case False
      then show ?thesis
        using legalFill_keep[OF assms(2) rc] consistent_cell[OF assms(1) rc] by auto
    qed
    fix p assume p: "p \<in> set (getPeers r c)"
    obtain r' c' where e: "p = (r', c')" by (cases p)
    have pb: "r' < 9" "c' < 9" using getPeers_bound[OF rc] p e by auto
    have "cell s r' c' \<noteq> cell s r c"
    proof (cases "cell b r c = Some 0")
      case True
      then show ?thesis using legalFill_peer[OF assms(2) rc] p e by simp
    next
      case nz: False
      obtain v where v: "cell b r c = Some v" "v \<noteq> 0"
        using consistent_cell[OF assms(1) rc] nz by auto
      have sv: "cell s r c = Some v" using legalFill_keep[OF assms(2) rc nz] v by simp
      show ?thesis
      proof (cases "cell b r' c' = Some 0")
        case True
        have "(r, c) \<in> set (getPeers r' c')" using getPeers_sym[OF rc] p e by simp
        then show ?thesis using legalFill_peer[OF assms(2) pb True, of r c] by auto
      next
        case False
        then have "cell s r' c' = cell b r' c'" using legalFill_keep[OF assms(2) pb] by simp
        then show ?thesis
          using consistent_peer[OF assms(1) rc v, of r' c'] p e sv by simp
      qed
    qed
    then show "case p of (r', c') \<Rightarrow> cell s r' c' \<noteq> cell s r c" unfolding e by simp
  qed
  show "validSolution s"
    using fullConsistent_validSolution[OF legalFill_wf[OF assms(2)] fc] .
  show "agrees b s"
    unfolding agrees_iff using legalFill_keep[OF assms(2)] by metis
qed

lemma legalFill_completions: "consistent b \<Longrightarrow> {s. legalFill b s} = completions b"
  unfolding completions_def using legalFill_validSolution validSolution_legalFill by blast

lemma countSolutions_completions:
  "consistent b \<Longrightarrow> countSolutions b limit = min limit (card (completions b))"
  using countSolutions_legalFill[OF consistent_wf] legalFill_completions by simp

text \<open>A grid obtained by blanking cells of a solution is consistent.\<close>

lemma blanked_consistent:
  assumes "validSolution s" "wf9 b" "agrees b s"
  shows "consistent b"
proof (rule consistentI)
  note fc = validSolution_fullConsistent[OF assms(1)]
  show "wf9 b" by fact
  show "\<exists>v. cell b r c = Some v \<and> v \<le> 9" if "r < 9" "c < 9" for r c
    using agrees_cases[OF assms(3) that] fullConsistent_digit[OF fc that] by auto
  fix r c v r' c' assume h: "r < 9" "c < 9" "cell b r c = Some v" "v \<noteq> 0"
    "(r', c') \<in> set (getPeers r c)"
  have pb: "r' < 9" "c' < 9" using getPeers_bound[OF h(1,2) h(5)] by simp_all
  have "cell s r c = Some v" using agrees_keep[OF assms(3) h(1,2)] h(3,4) by simp
  moreover have "cell s r' c' \<noteq> cell s r c" using fullConsistent_peer[OF fc h(1,2,5)] .
  moreover have "cell b r' c' = Some 0 \<or> cell b r' c' = cell s r' c'"
    using agrees_cases[OF assms(3) pb] .
  ultimately show "cell b r' c' \<noteq> Some v" using h(4) by auto
qed

text \<open>
  Two solutions that differ at most on a set of cells, each of which is alone of that set in
  one of its units, are equal.
\<close>

lemma solutions_equal:
  assumes "validSolution s" "validSolution t"
    and same: "\<And>r c. r < 9 \<Longrightarrow> c < 9 \<Longrightarrow> (r, c) \<notin> X \<Longrightarrow> cell t r c = cell s r c"
    and alone: "\<And>x. x \<in> X \<Longrightarrow> \<exists>u \<in> set getUnits. x \<in> set u \<and> set u \<inter> X = {x}"
  shows "t = s"
proof (rule wf9_ext)
  show "wf9 t" "wf9 s" using assms(1,2) by (simp_all add: validSolution_wf)
  fix r c :: nat assume rc: "r < 9" "c < 9"
  show "cell t r c = cell s r c"
  proof (cases "(r, c) \<in> X")
    case False
    then show ?thesis using same[OF rc] by simp
  next
    case True
    obtain u where u: "u \<in> set getUnits" "(r, c) \<in> set u" "set u \<inter> X = {(r, c)}"
      using alone[OF True] by blast
    let ?f = "\<lambda>g. \<lambda>(r, c). cell g r c"
    note vs = unit_values[OF assms(1) u(1)] and vt = unit_values[OF assms(2) u(1)]
    note up = unit_props[OF u(1)]
    have injs: "inj_on (?f s) (set u)" and injt: "inj_on (?f t) (set u)"
      using vs vt up by (simp_all add: distinct_map)
    show ?thesis
    proof (rule ccontr)
      assume ne: "cell t r c \<noteq> cell s r c"
      have "?f t (r, c) \<in> set (map (?f s) u)"
        using vs vt u(2) by (metis (no_types, lifting) image_eqI list.set_map)
      then obtain y where y: "y \<in> set u" "?f s y = cell t r c" by auto
      have "y \<noteq> (r, c)" using y(2) ne by auto
      then have "y \<notin> X" using u(3) y(1) by auto
      moreover obtain r' c' where e: "y = (r', c')" by (cases y)
      moreover have "r' < 9" "c' < 9" using up y(1) e by (auto simp: set_coords81)
      ultimately have "?f t y = ?f s y" using same[of r' c'] by simp
      then have "?f t y = ?f t (r, c)" using y(2) by simp
      from inj_onD[OF injt this y(1) u(2)] \<open>y \<noteq> (r, c)\<close> show False by simp
    qed
  qed
qed

lemma row_unit: "r < 9 \<Longrightarrow> map (\<lambda>c. (r, c)) [0..<9] \<in> set getUnits"
  unfolding set_getUnits by (intro UnI1 image_eqI[of _ _ r]) simp_all

lemma col_unit: "c < 9 \<Longrightarrow> map (\<lambda>r. (r, c)) [0..<9] \<in> set getUnits"
  unfolding set_getUnits by (intro UnI1 UnI2 image_eqI[of _ _ c]) simp_all

lemma single_blank:
  assumes "validSolution s" "r < 9" "c < 9"
  shows "consistent (setCell s r c 0) \<and> completions (setCell s r c 0) = {s}"
proof
  let ?b = "setCell s r c 0"
  note wf = validSolution_wf[OF assms(1)]
  have ag: "agrees ?b s"
    unfolding agrees_iff by (simp add: cell_setCell_wf[OF wf assms(2,3)])
  show "consistent ?b"
    using blanked_consistent[OF assms(1) _ ag] validSolution_wf[OF assms(1)] by simp
  show "completions ?b = {s}"
  proof (intro set_eqI iffI)
    fix t assume "t \<in> {s}"
    then show "t \<in> completions ?b" using assms(1) ag by (simp add: completions_def)
  next
    fix t assume "t \<in> completions ?b"
    then have t: "validSolution t" "agrees ?b t" by (simp_all add: completions_def)
    have "t = s"
    proof (rule solutions_equal[OF assms(1) t(1), of "{(r, c)}"])
      fix r' c' assume h: "r' < 9" "c' < 9" "(r', c') \<notin> {(r, c)}"
      then have "cell ?b r' c' = cell s r' c'" by (auto simp: cell_setCell)
      moreover have "cell s r' c' \<noteq> Some 0"
        using fullConsistent_digit[OF validSolution_fullConsistent[OF assms(1)] h(1,2)] by auto
      ultimately show "cell t r' c' = cell s r' c'"
        using agrees_keep[OF t(2) h(1,2)] by simp
    next
      fix x assume "x \<in> {(r, c)}"
      then have x: "x = (r, c)" by simp
      have "(r, c) \<in> set (map (\<lambda>c. (r, c)) [0..<9])" using assms(3) by simp
      then show "\<exists>u \<in> set getUnits. x \<in> set u \<and> set u \<inter> {(r, c)} = {x}"
        unfolding x using row_unit[OF assms(2)] by (intro bexI[of _ "map (\<lambda>c. (r, c)) [0..<9]"]) auto
    qed
    then show "t \<in> {s}" by simp
  qed
qed

subsection \<open>What filling a board returns\<close>

lemma fill_results:
  "wf9 b \<Longrightarrow>
     (case fillBoard b rng of (ok, b', rng') \<Rightarrow>
        if ok then legalFill b b' else b' = b \<and> {s. legalFill b s} = {})"
  "wf9 b \<Longrightarrow> r < 9 \<Longrightarrow> c < 9 \<Longrightarrow> cell b r c = Some 0 \<Longrightarrow> set numbers \<subseteq> {1..9} \<Longrightarrow>
     (case fillNumbers b r c numbers rng of (ok, b', rng') \<Rightarrow>
        if ok then legalFill b b'
        else b' = b \<and> (\<forall>v \<in> set numbers. isValidPlacement b r c v \<longrightarrow> {s. legalFill (setCell b r c v) s} = {}))"
proof (induction b rng and b r c numbers rng rule: fillBoard_fillNumbers.induct)
  case (1 board rng)
  show ?case
  proof (cases "findEmptyCell board")
    case None
    then show ?thesis
      using legalFill_full[OF "1.prems" None, of board] by (simp add: fillBoard.simps[of board rng])
  next
    case (Some rc)
    obtain row col where rc: "rc = (row, col)" by (cases rc)
    obtain numbers rng' where sh: "shuffleArray [1, 2, 3, 4, 5, 6, 7, 8, 9::nat] rng = (numbers, rng')"
      by (cases "shuffleArray [1, 2, 3, 4, 5, 6, 7, 8, 9::nat] rng")
    have e: "row < 9" "col < 9" "cell board row col = Some 0"
      using findEmptyCell_Some[of board row col] Some rc by (auto simp: set_coords81)
    have sn: "set numbers = {1..9}"
      using shuffleArray_set[of "[1, 2, 3, 4, 5, 6, 7, 8, 9::nat]" rng] sh
      by (simp only: digits_set fst_conv)
    have unf: "fillBoard board rng = fillNumbers board row col numbers rng'"
      using Some rc sh by (simp add: fillBoard.simps[of board rng])
    obtain ok b' rng'' where res: "fillNumbers board row col numbers rng' = (ok, b', rng'')"
      by (cases "fillNumbers board row col numbers rng'")
    have ih: "if ok then legalFill board b'
        else b' = board \<and> (\<forall>v \<in> set numbers. isValidPlacement board row col v \<longrightarrow>
               {s. legalFill (setCell board row col v) s} = {})"
      using "1.IH"[OF Some rc[symmetric] sh[symmetric] "1.prems" e] sn res by simp
    show ?thesis
    proof (cases ok)
      case True
      then show ?thesis using ih unf res by simp
    next
      case False
      have "{s. legalFill board s} = {}"
        using ih False sn legalFill_step[OF "1.prems" e] by auto
      then show ?thesis using ih False unf res by simp
    qed
  qed
next
  case (2 board row col rng)
  then show ?case by (simp add: fillNumbers.simps)
next
  case (3 board row col num numbers rng)
  note wf = "3.prems"(1) and rc = "3.prems"(2,3) and z = "3.prems"(4) and sn = "3.prems"(5)
  note unf = fillNumbers.simps(2)[of board row col num numbers rng]
  have nums: "set numbers \<subseteq> {1..9}" "1 \<le> num" "num \<le> 9" using sn by auto
  show ?case
  proof (cases "isValidPlacement board row col num")
    case False
    then show ?thesis
      using "3.IH"(3)[OF False wf rc z nums(1)] by (auto simp: unf split: prod.splits if_splits)
  next
    case True
    let ?b' = "setCell board row col num"
    obtain ok b' rng' where f: "fillBoard ?b' rng = (ok, b', rng')"
      by (cases "fillBoard ?b' rng")
    have ih1: "if ok then legalFill ?b' b' else b' = ?b' \<and> {s. legalFill ?b' s} = {}"
      using "3.IH"(1)[OF True] wf f by simp
    show ?thesis
    proof (cases ok)
      case ok: True
      have "legalFill board b'"
        using legalFill_step[OF wf rc z, of b'] ih1 ok True nums by auto
      then show ?thesis using True f ok by (simp add: unf)
    next
      case no: False
      have b': "b' = ?b'" and em: "{s. legalFill ?b' s} = {}" using ih1 no by simp_all
      have undo: "setCell b' row col 0 = board"
        unfolding b' using setCell_zero_id[OF z] by simp
      have e: "fillNumbers board row col (num # numbers) rng = fillNumbers board row col numbers rng'"
        using True f no undo by (simp add: unf)
      have "case fillNumbers board row col numbers rng' of (ok, b'', rng'') \<Rightarrow>
              if ok then legalFill board b''
              else b'' = board \<and> (\<forall>v \<in> set numbers. isValidPlacement board row col v \<longrightarrow>
                     {s. legalFill (setCell board row col v) s} = {})"
        using "3.IH"(2)[OF True f[symmetric] refl no, unfolded undo, OF wf rc z nums(1)] .
      then show ?thesis
        unfolding e using em by (auto split: prod.splits if_splits)
    qed
  qed
qed

text \<open>A solution exists, so that filling the empty board cannot fail.\<close>

definition solved0 :: board where
  "solved0 =
    [[1, 2, 3, 4, 5, 6, 7, 8, 9],
     [4, 5, 6, 7, 8, 9, 1, 2, 3],
     [7, 8, 9, 1, 2, 3, 4, 5, 6],
     [2, 3, 1, 5, 6, 4, 8, 9, 7],
     [5, 6, 4, 8, 9, 7, 2, 3, 1],
     [8, 9, 7, 2, 3, 1, 5, 6, 4],
     [3, 1, 2, 6, 4, 5, 9, 7, 8],
     [6, 4, 5, 9, 7, 8, 3, 1, 2],
     [9, 7, 8, 3, 1, 2, 6, 4, 5]]"

lemma solved0_valid: "validSolution solved0"
  by code_simp

lemma emptyBoard_cell: "r < 9 \<Longrightarrow> c < 9 \<Longrightarrow> cell emptyBoard r c = Some 0"
  by (simp add: cell_def emptyBoard_def)

lemma wf9_emptyBoard: "wf9 emptyBoard"
  by (simp add: wf9_def emptyBoard_def list_all_iff)

lemma generateSolution_valid: "validSolution (fst (generateSolution rng))"
proof -
  obtain ok b' rng' where f: "fillBoard emptyBoard rng = (ok, b', rng')"
    by (cases "fillBoard emptyBoard rng")
  have ag: "\<And>s. agrees emptyBoard s"
    unfolding agrees_iff using emptyBoard_cell by simp
  have "legalFill emptyBoard solved0"
    using validSolution_legalFill[OF solved0_valid ag] .
  then have "{s. legalFill emptyBoard s} \<noteq> {}" by blast
  then have "legalFill emptyBoard b'"
    using fill_results(1)[OF wf9_emptyBoard, of rng] f by (auto split: if_splits)
  moreover have "consistent emptyBoard"
    using wf9_emptyBoard emptyBoard_cell by (intro consistentI) auto
  ultimately have "validSolution b'"
    using legalFill_validSolution by blast
  then show ?thesis
    using f by (simp add: generateSolution_def)
qed

section \<open>The logic solver: candidates and techniques\<close>

text \<open>
  The candidates are a 9 x 9 array of JavaScript \<open>Set\<close>s of digits.  A \<open>Set\<close> is the list of its
  members in insertion order, which is the order its iteration and spreading follow:
  \<open>has\<close> is membership, \<open>size\<close> the length, \<open>delete\<close> removes the member and answers whether it
  was there, \<open>clear\<close> leaves the empty list.  A read outside the array gives the empty set.
\<close>

type_synonym cands = "nat list list list"

definition cset :: "cands \<Rightarrow> nat \<Rightarrow> nat \<Rightarrow> nat list" where
  "cset cands r c = (case cell cands r c of Some s \<Rightarrow> s | None \<Rightarrow> [])"

definition setAdd :: "'a \<Rightarrow> 'a list \<Rightarrow> 'a list" where
  "setAdd x s = (if x \<in> set s then s else s @ [x])"

text \<open>\<open>new Set(array)\<close>.\<close>

definition toSet :: "'a list \<Rightarrow> 'a list" where
  "toSet xs = fold setAdd xs []"

text \<open>\<open>if (cands[r][c].delete(v)) progress = true\<close>, on the candidates and the progress flag.\<close>

definition deleteCand :: "nat \<Rightarrow> nat \<Rightarrow> nat \<Rightarrow> cands \<times> bool \<Rightarrow> cands \<times> bool" where
  "deleteCand r c v st =
     (case st of (cands, progress) \<Rightarrow>
        if v \<in> set (cset cands r c)
        then (setCell cands r c (removeAll v (cset cands r c)), True)
        else (cands, progress))"

text \<open>\<open>getCandidates(board)\<close>: for every empty cell the digits that may be placed there.\<close>

definition getCandidates :: "board \<Rightarrow> cands" where
  "getCandidates board =
     map (\<lambda>r. map (\<lambda>c. if cell board r c \<noteq> Some 0 then []
                        else filter (\<lambda>n. isValidPlacement board r c n) [1..<10]) [0..<9]) [0..<9]"

text \<open>\<open>eliminateFromPeers(cands, row, col, val)\<close>: delete along the row, the column and the box.\<close>

definition eliminateFromPeers :: "cands \<Rightarrow> nat \<Rightarrow> nat \<Rightarrow> nat \<Rightarrow> cands" where
  "eliminateFromPeers cands row col val =
     (let st1 = fold (\<lambda>c st. deleteCand row c val st) [0..<9] (cands, False);
          st2 = fold (\<lambda>r st. deleteCand r col val st) [0..<9] st1;
          br = (row div 3) * 3;
          bc = (col div 3) * 3;
          st3 = fold (\<lambda>r st. fold (\<lambda>c st. deleteCand r c val st) [bc..<bc + 3] st) [br..<br + 3] st2
      in fst st3)"

text \<open>Level 1, \<open>applyNakedSingles\<close>: an empty cell with exactly one candidate.\<close>

definition nakedSingleAt :: "nat \<times> nat \<Rightarrow> board \<times> cands \<times> bool \<Rightarrow> board \<times> cands \<times> bool" where
  "nakedSingleAt rc st =
     (case rc of (r, c) \<Rightarrow> case st of (board, cands, progress) \<Rightarrow>
        if cell board r c = Some 0 \<and> length (cset cands r c) = 1
        then (let val = hd (cset cands r c)
              in (setCell board r c val, eliminateFromPeers (setCell cands r c []) r c val, True))
        else (board, cands, progress))"

definition applyNakedSingles :: "board \<Rightarrow> cands \<Rightarrow> bool \<times> board \<times> cands" where
  "applyNakedSingles board cands =
     (case fold nakedSingleAt coords81 (board, cands, False) of
        (board', cands', progress) \<Rightarrow> (progress, board', cands'))"

text \<open>Level 2, \<open>applyHiddenSingles\<close>: a digit with a single place in a unit.\<close>

definition hiddenSingleAt ::
  "(nat \<times> nat) list \<Rightarrow> nat \<Rightarrow> board \<times> cands \<times> bool \<Rightarrow> board \<times> cands \<times> bool" where
  "hiddenSingleAt unit n st =
     (case st of (board, cands, progress) \<Rightarrow>
        (let places = filter (\<lambda>(r, c). n \<in> set (cset cands r c)) unit
         in if length places = 1
            then (case hd places of (r, c) \<Rightarrow>
                    (setCell board r c n, eliminateFromPeers (setCell cands r c []) r c n, True))
            else (board, cands, progress)))"

definition applyHiddenSingles :: "board \<Rightarrow> cands \<Rightarrow> bool \<times> board \<times> cands" where
  "applyHiddenSingles board cands =
     (case fold (\<lambda>unit st. fold (\<lambda>n st. hiddenSingleAt unit n st) [1..<10] st) getUnits
             (board, cands, False) of
        (board', cands', progress) \<Rightarrow> (progress, board', cands'))"

text \<open>\<open>combinations(arr, k)\<close>.\<close>

fun combinations :: "'a list \<Rightarrow> nat \<Rightarrow> 'a list list" where
  "combinations arr 0 = [[]]"
| "combinations [] (Suc k) = []"
| "combinations (first # rest) (Suc k) =
     (if length (first # rest) < Suc k then []
      else map (\<lambda>c. first # c) (combinations rest k) @ combinations rest (Suc k))"

text \<open>Level 3, \<open>applyNakedSubsets\<close> with \<open>findNakedSubset(cands, unit, size)\<close>.\<close>

definition nakedComboStep ::
  "(nat \<times> nat) list \<Rightarrow> nat \<Rightarrow> (nat \<times> nat) list \<Rightarrow> cands \<times> bool \<Rightarrow> cands \<times> bool" where
  "nakedComboStep unit sz combo st =
     (let unionSet = fold (\<lambda>(r, c) u. fold setAdd (cset (fst st) r c) u) combo []
      in if length unionSet = sz
         then fold (\<lambda>(r, c) st.
                 if list_ex (\<lambda>(cr, cc). cr = r \<and> cc = c) combo then st
                 else fold (\<lambda>v st. deleteCand r c v st) unionSet st) unit st
         else st)"

definition findNakedSubset :: "cands \<Rightarrow> (nat \<times> nat) list \<Rightarrow> nat \<Rightarrow> bool \<times> cands" where
  "findNakedSubset cands unit sz =
     (let cells = filter (\<lambda>(r, c). length (cset cands r c) \<ge> 2 \<and> length (cset cands r c) \<le> sz) unit
      in if length cells < sz then (False, cands)
         else (case fold (nakedComboStep unit sz) (combinations cells sz) (cands, False) of
                 (cands', progress) \<Rightarrow> (progress, cands')))"

definition subsetsInUnit ::
  "(cands \<Rightarrow> (nat \<times> nat) list \<Rightarrow> nat \<Rightarrow> bool \<times> cands) \<Rightarrow> (nat \<times> nat) list \<Rightarrow> cands \<times> bool \<Rightarrow>
     cands \<times> bool" where
  "subsetsInUnit finder unit st =
     (case st of (cands, progress) \<Rightarrow>
        case finder cands unit 2 of (p2, cands2) \<Rightarrow>
        case finder cands2 unit 3 of (p3, cands3) \<Rightarrow>
          (cands3, (progress \<or> p2) \<or> p3))"

definition applyNakedSubsets :: "board \<Rightarrow> cands \<Rightarrow> bool \<times> board \<times> cands" where
  "applyNakedSubsets board cands =
     (case fold (subsetsInUnit findNakedSubset) getUnits (cands, False) of
        (cands', progress) \<Rightarrow> (progress, board, cands'))"

text \<open>
  Level 3, \<open>applyHiddenSubsets\<close> with \<open>findHiddenSubset(cands, unit, size)\<close>.  The \<open>Map\<close>s are
  association lists in insertion order; \<open>mapSet\<close> is \<open>Map.prototype.set\<close>.
\<close>

definition mapSet :: "'k \<Rightarrow> 'v \<Rightarrow> ('k \<times> 'v) list \<Rightarrow> ('k \<times> 'v) list" where
  "mapSet k v m =
     (if k \<in> set (map fst m) then map (\<lambda>(k', v'). if k' = k then (k', v) else (k', v')) m
      else m @ [(k, v)])"

definition mapGet :: "('k \<times> 'v list) list \<Rightarrow> 'k \<Rightarrow> 'v list" where
  "mapGet m k = (case map_of m k of Some v \<Rightarrow> v | None \<Rightarrow> [])"

definition hiddenComboStep ::
  "(nat \<times> (nat \<times> nat) list) list \<Rightarrow> nat \<Rightarrow> nat list \<Rightarrow> cands \<times> bool \<Rightarrow> cands \<times> bool" where
  "hiddenComboStep candidateCells sz combo st =
     (let cellSet = fold (\<lambda>n m. fold (\<lambda>(r, c) m. mapSet (r * 9 + c) (r, c) m) (mapGet candidateCells n) m)
                      combo []
      in if length cellSet = sz
         then fold (\<lambda>(k, (r, c)) st.
                 fold (\<lambda>v st. if v \<notin> set combo then deleteCand r c v st else st)
                   (cset (fst st) r c) st) cellSet st
         else st)"

definition candidatePlaces :: "cands \<Rightarrow> (nat \<times> nat) list \<Rightarrow> nat \<Rightarrow> (nat \<times> (nat \<times> nat) list) list" where
  "candidatePlaces cands unit sz =
     concat (map (\<lambda>n. let cells = filter (\<lambda>(r, c). n \<in> set (cset cands r c)) unit
                      in if length cells \<ge> 2 \<and> length cells \<le> sz then [(n, cells)] else [])
               [1..<10])"

definition findHiddenSubset :: "cands \<Rightarrow> (nat \<times> nat) list \<Rightarrow> nat \<Rightarrow> bool \<times> cands" where
  "findHiddenSubset cands unit sz =
     (let candidateCells = candidatePlaces cands unit sz;
          candidateKeys = map fst candidateCells
      in if length candidateKeys < sz then (False, cands)
         else (case fold (hiddenComboStep candidateCells sz) (combinations candidateKeys sz)
                      (cands, False) of
                 (cands', progress) \<Rightarrow> (progress, cands')))"

definition applyHiddenSubsets :: "board \<Rightarrow> cands \<Rightarrow> bool \<times> board \<times> cands" where
  "applyHiddenSubsets board cands =
     (case fold (subsetsInUnit findHiddenSubset) getUnits (cands, False) of
        (cands', progress) \<Rightarrow> (progress, board, cands'))"

text \<open>Level 4, \<open>applyPointingPairs\<close>: pointing pairs, then box-line reduction.\<close>

definition pointingBox :: "nat \<Rightarrow> nat \<Rightarrow> nat \<Rightarrow> cands \<times> bool \<Rightarrow> cands \<times> bool" where
  "pointingBox br bc n st =
     (let boxCells = List.product [br * 3..<br * 3 + 3] [bc * 3..<bc * 3 + 3];
          places = filter (\<lambda>(r, c). n \<in> set (cset (fst st) r c)) boxCells
      in if length places < 2 \<or> length places > 3 then st
         else
           (let rows = toSet (map fst places);
                cols = toSet (map snd places);
                st1 = (if length rows = 1
                       then (let row = hd rows
                             in fold (\<lambda>c st. if c \<ge> bc * 3 \<and> c < bc * 3 + 3 then st
                                              else deleteCand row c n st) [0..<9] st)
                       else st);
                st2 = (if length cols = 1
                       then (let col = hd cols
                             in fold (\<lambda>r st. if r \<ge> br * 3 \<and> r < br * 3 + 3 then st
                                              else deleteCand r col n st) [0..<9] st1)
                       else st1)
            in st2))"

definition lineBoxRow :: "nat \<Rightarrow> nat \<Rightarrow> cands \<times> bool \<Rightarrow> cands \<times> bool" where
  "lineBoxRow n r st =
     (let cols = filter (\<lambda>c. n \<in> set (cset (fst st) r c)) [0..<9]
      in if length cols < 2 \<or> length cols > 3 then st
         else
           (let boxes = toSet (map (\<lambda>c. c div 3) cols)
            in if length boxes = 1
               then (let bc = hd boxes; br = r div 3
                     in fold (\<lambda>rr st. if rr = r then st
                                      else fold (\<lambda>cc st. deleteCand rr cc n st) [bc * 3..<bc * 3 + 3] st)
                          [br * 3..<br * 3 + 3] st)
               else st))"

definition lineBoxCol :: "nat \<Rightarrow> nat \<Rightarrow> cands \<times> bool \<Rightarrow> cands \<times> bool" where
  "lineBoxCol n c st =
     (let rows = filter (\<lambda>r. n \<in> set (cset (fst st) r c)) [0..<9]
      in if length rows < 2 \<or> length rows > 3 then st
         else
           (let boxes = toSet (map (\<lambda>r. r div 3) rows)
            in if length boxes = 1
               then (let br = hd boxes; bc = c div 3
                     in fold (\<lambda>rr st.
                            fold (\<lambda>cc st. if cc = c then st else deleteCand rr cc n st)
                              [bc * 3..<bc * 3 + 3] st)
                          [br * 3..<br * 3 + 3] st)
               else st))"

definition applyPointingPairs :: "board \<Rightarrow> cands \<Rightarrow> bool \<times> board \<times> cands" where
  "applyPointingPairs board cands =
     (let st1 = fold (\<lambda>br st. fold (\<lambda>bc st. fold (\<lambda>n st. pointingBox br bc n st) [1..<10] st) [0..<3] st)
                  [0..<3] (cands, False);
          st2 = fold (\<lambda>n st. fold (\<lambda>c st. lineBoxCol n c st) [0..<9]
                                (fold (\<lambda>r st. lineBoxRow n r st) [0..<9] st))
                  [1..<10] st1
      in (snd st2, board, fst st2))"

text \<open>The pairs \<open>i < j\<close> and the triples \<open>i < j < k\<close> of the nested index loops.\<close>

fun pairsOf :: "'a list \<Rightarrow> ('a \<times> 'a) list" where
  "pairsOf [] = []"
| "pairsOf (x # xs) = map (\<lambda>y. (x, y)) xs @ pairsOf xs"

fun triplesOf :: "'a list \<Rightarrow> ('a \<times> 'a \<times> 'a) list" where
  "triplesOf [] = []"
| "triplesOf (x # xs) = map (\<lambda>(y, z). (x, y, z)) (pairsOf xs) @ triplesOf xs"

text \<open>Level 5, \<open>applyXWing\<close>: by rows, then by columns, for each digit.\<close>

definition xwingRows :: "nat \<Rightarrow> cands \<times> bool \<Rightarrow> cands \<times> bool" where
  "xwingRows n st =
     (let rowPositions =
            concat (map (\<lambda>r. let cols = filter (\<lambda>c. n \<in> set (cset (fst st) r c)) [0..<9]
                              in if length cols = 2 then [(r, cols)] else []) [0..<9])
      in fold (\<lambda>((r1, cols1), (r2, cols2)) st.
                 if cols1 ! 0 = cols2 ! 0 \<and> cols1 ! 1 = cols2 ! 1
                 then (let c1 = cols1 ! 0; c2 = cols1 ! 1
                       in fold (\<lambda>r st. if r = r1 \<or> r = r2 then st
                                        else deleteCand r c2 n (deleteCand r c1 n st)) [0..<9] st)
                 else st)
           (pairsOf rowPositions) st)"

definition xwingCols :: "nat \<Rightarrow> cands \<times> bool \<Rightarrow> cands \<times> bool" where
  "xwingCols n st =
     (let colPositions =
            concat (map (\<lambda>c. let rows = filter (\<lambda>r. n \<in> set (cset (fst st) r c)) [0..<9]
                              in if length rows = 2 then [(c, rows)] else []) [0..<9])
      in fold (\<lambda>((c1, rows1), (c2, rows2)) st.
                 if rows1 ! 0 = rows2 ! 0 \<and> rows1 ! 1 = rows2 ! 1
                 then (let r1 = rows1 ! 0; r2 = rows1 ! 1
                       in fold (\<lambda>c st. if c = c1 \<or> c = c2 then st
                                        else deleteCand r2 c n (deleteCand r1 c n st)) [0..<9] st)
                 else st)
           (pairsOf colPositions) st)"

definition applyXWing :: "board \<Rightarrow> cands \<Rightarrow> bool \<times> board \<times> cands" where
  "applyXWing board cands =
     (case fold (\<lambda>n st. xwingCols n (xwingRows n st)) [1..<10] (cands, False) of
        (cands', progress) \<Rightarrow> (progress, board, cands'))"

text \<open>
  Level 6, \<open>applySwordfish\<close>.  The masks are 32-bit integers, as JavaScript's bitwise operators
  make them; \<open>countSetBits\<close> is the code's Hamming weight, \<open>>>\<close> the sign-propagating shift.
\<close>

definition countSetBits :: "32 word \<Rightarrow> 32 word" where
  "countSetBits n0 =
     (let n1 = n0 - (and (signed_drop_bit 1 n0) 0x55555555);
          n2 = (and n1 0x33333333) + (and (signed_drop_bit 2 n1) 0x33333333)
      in signed_drop_bit 24 ((and (n2 + signed_drop_bit 4 n2) 0xF0F0F0F) * 0x1010101))"

definition lineMask :: "(nat \<Rightarrow> bool) \<Rightarrow> 32 word" where
  "lineMask has = fold (\<lambda>i mask. if has i then or mask (push_bit i 1) else mask) [0..<9] 0"

definition eliminateFromColumns :: "cands \<Rightarrow> nat \<Rightarrow> 32 word \<Rightarrow> nat list \<Rightarrow> bool \<times> cands" where
  "eliminateFromColumns cands val colMask exceptRows =
     (case fold (\<lambda>c st. if and colMask (push_bit c 1) \<noteq> 0
                        then fold (\<lambda>r st. if r \<notin> set exceptRows then deleteCand r c val st else st)
                               [0..<9] st
                        else st) [0..<9] (cands, False) of
        (cands', progress) \<Rightarrow> (progress, cands'))"

definition eliminateFromRows :: "cands \<Rightarrow> nat \<Rightarrow> 32 word \<Rightarrow> nat list \<Rightarrow> bool \<times> cands" where
  "eliminateFromRows cands val rowMask exceptCols =
     (case fold (\<lambda>r st. if and rowMask (push_bit r 1) \<noteq> 0
                        then fold (\<lambda>c st. if c \<notin> set exceptCols then deleteCand r c val st else st)
                               [0..<9] st
                        else st) [0..<9] (cands, False) of
        (cands', progress) \<Rightarrow> (progress, cands'))"

definition lineMasks :: "(nat \<Rightarrow> nat \<Rightarrow> bool) \<Rightarrow> (nat \<times> 32 word) list" where
  "lineMasks has =
     concat (map (\<lambda>i. let mask = lineMask (has i); cnt = countSetBits mask
                      in if 2 \<le> sint cnt \<and> sint cnt \<le> 3 then [(i, mask)] else []) [0..<9])"

definition swordfishLines ::
  "(cands \<Rightarrow> nat \<Rightarrow> 32 word \<Rightarrow> nat list \<Rightarrow> bool \<times> cands) \<Rightarrow> nat \<Rightarrow> (nat \<times> 32 word) list \<Rightarrow>
     cands \<times> bool \<Rightarrow> cands \<times> bool" where
  "swordfishLines eliminate n masks st =
     (if length masks \<ge> 3
      then fold (\<lambda>((i, mi), (j, mj), (k, mk)) st.
                   (let combinedMask = or (or mi mj) mk
                    in if countSetBits combinedMask = 3
                       then (case eliminate (fst st) n combinedMask [i, j, k] of
                               (p, cands') \<Rightarrow> (cands', snd st \<or> p))
                       else st))
             (triplesOf masks) st
      else st)"

definition swordfishDigit :: "nat \<Rightarrow> cands \<times> bool \<Rightarrow> cands \<times> bool" where
  "swordfishDigit n st =
     (let st1 = swordfishLines eliminateFromColumns n
                  (lineMasks (\<lambda>r c. n \<in> set (cset (fst st) r c))) st
      in swordfishLines eliminateFromRows n
           (lineMasks (\<lambda>c r. n \<in> set (cset (fst st1) r c))) st1)"

definition applySwordfish :: "board \<Rightarrow> cands \<Rightarrow> bool \<times> board \<times> cands" where
  "applySwordfish board cands =
     (case fold swordfishDigit [1..<10] (cands, False) of
        (cands', progress) \<Rightarrow> (progress, board, cands'))"

text \<open>
  Level 7, \<open>applyXYWing\<close>.  A wing records its cell and \<open>wVals.find(v => v !== x)\<close>, which is
  \<open>undefined\<close> (\<open>None\<close>) when nothing is found.
\<close>

definition wingsOf ::
  "cands \<Rightarrow> (nat \<times> nat) list \<Rightarrow> nat \<Rightarrow> nat \<Rightarrow> (nat \<times> nat \<times> nat option) list" where
  "wingsOf cands peers x y =
     concat (map (\<lambda>(wr, wc).
               let wVals = cset cands wr wc
               in if length wVals \<noteq> 2 then []
                  else if x \<in> set wVals \<and> y \<notin> set wVals
                       then [(wr, wc, List.find (\<lambda>v. v \<noteq> x) wVals)]
                       else []) peers)"

definition xyWingPair ::
  "nat \<times> nat \<Rightarrow> nat \<times> nat \<times> nat option \<Rightarrow> nat \<times> nat \<times> nat option \<Rightarrow> cands \<times> bool \<Rightarrow> cands \<times> bool" where
  "xyWingPair pivot wx wy st =
     (case pivot of (pr, pc) \<Rightarrow> case wx of (wxr, wxc, wxz) \<Rightarrow> case wy of (wyr, wyc, wyz) \<Rightarrow>
        if wxz \<noteq> wyz then st
        else
          (case wxz of
             None \<Rightarrow> st
           | Some z \<Rightarrow>
               fold (\<lambda>(r, c) st.
                       if z \<notin> set (cset (fst st) r c) then st
                       else if (r = wxr \<and> c = wxc) \<or> (r = wyr \<and> c = wyc) \<or> (r = pr \<and> c = pc) then st
                       else if isPeer r c wyr wyc then deleteCand r c z st
                       else st)
                 (getPeers wxr wxc) st))"

definition xyWingAt :: "nat \<times> nat \<Rightarrow> cands \<times> bool \<Rightarrow> cands \<times> bool" where
  "xyWingAt pivot st =
     (case pivot of (pr, pc) \<Rightarrow>
        (let pv = cset (fst st) pr pc
         in if length pv \<noteq> 2 then st
            else
              (let x = pv ! 0; y = pv ! 1;
                   peers = getPeers pr pc;
                   wingX = wingsOf (fst st) peers x y;
                   wingY = wingsOf (fst st) peers y x
               in fold (\<lambda>wx st. fold (\<lambda>wy st. xyWingPair pivot wx wy st) wingY st) wingX st)))"

definition applyXYWing :: "board \<Rightarrow> cands \<Rightarrow> bool \<times> board \<times> cands" where
  "applyXYWing board cands =
     (case fold xyWingAt coords81 (cands, False) of
        (cands', progress) \<Rightarrow> (progress, board, cands'))"

section \<open>Techniques only narrow\<close>

text \<open>The number of candidates in all cells: it decreases with every reported progress.\<close>

definition candTotal :: "cands \<Rightarrow> nat" where
  "candTotal cands = sum_list (map (\<lambda>row. sum_list (map length row)) cands)"

definition narrowsC :: "cands \<Rightarrow> cands \<Rightarrow> bool" where
  "narrowsC cs cs' = ((\<forall>r c. set (cset cs' r c) \<subseteq> set (cset cs r c)) \<and> candTotal cs' \<le> candTotal cs)"

text \<open>
  One step on the candidates and the progress flag: candidates only go away, a flag that was set
  stays set, a flag that gets set comes with fewer candidates, and a flag that is not set means
  that nothing changed.
\<close>

definition stepsC :: "cands \<times> bool \<Rightarrow> cands \<times> bool \<Rightarrow> bool" where
  "stepsC st st' =
     (narrowsC (fst st) (fst st') \<and> (snd st \<longrightarrow> snd st') \<and>
      (snd st' \<and> \<not> snd st \<longrightarrow> candTotal (fst st') < candTotal (fst st)) \<and>
      (\<not> snd st' \<longrightarrow> fst st' = fst st))"

lemma stepsC_refl [simp]: "stepsC st st"
  by (simp add: stepsC_def narrowsC_def)

lemma narrowsC_trans:
  assumes "narrowsC a b" "narrowsC b c"
  shows "narrowsC a c"
proof -
  have "set (cset c r k) \<subseteq> set (cset a r k)" for r k
    using assms unfolding narrowsC_def by (meson subset_trans)
  moreover have "candTotal c \<le> candTotal a"
    using assms unfolding narrowsC_def by linarith
  ultimately show ?thesis unfolding narrowsC_def by blast
qed

lemma stepsC_trans:
  assumes "stepsC a b" "stepsC b c"
  shows "stepsC a c"
proof -
  obtain ca pa cb pb cc pc where e: "a = (ca, pa)" "b = (cb, pb)" "c = (cc, pc)"
    by (cases a, cases b, cases c)
  have ab: "narrowsC ca cb" "pa \<longrightarrow> pb" "pb \<and> \<not> pa \<longrightarrow> candTotal cb < candTotal ca"
    "\<not> pb \<longrightarrow> cb = ca"
    using assms(1) unfolding e stepsC_def by simp_all
  have bc: "narrowsC cb cc" "pb \<longrightarrow> pc" "pc \<and> \<not> pb \<longrightarrow> candTotal cc < candTotal cb"
    "\<not> pc \<longrightarrow> cc = cb"
    using assms(2) unfolding e stepsC_def by simp_all
  have le: "candTotal cb \<le> candTotal ca" "candTotal cc \<le> candTotal cb"
    using ab(1) bc(1) unfolding narrowsC_def by simp_all
  have 1: "narrowsC ca cc" using narrowsC_trans[OF ab(1) bc(1)] .
  have 2: "pa \<longrightarrow> pc" using ab(2) bc(2) by blast
  have 3: "pc \<and> \<not> pa \<longrightarrow> candTotal cc < candTotal ca"
    using ab(3) bc(3) le by (cases pb) auto
  have 4: "\<not> pc \<longrightarrow> cc = ca" using ab(4) bc(2,4) by auto
  show ?thesis unfolding e stepsC_def using 1 2 3 4 by simp
qed

lemma cset_setCell:
  "cset (setCell cs r c s) r' c' =
     (if r' = r \<and> c' = c \<and> r < length cs \<and> c < length (cs ! r) then s else cset cs r' c')"
proof (cases "r' = r \<and> c' = c")
  case False
  then show ?thesis by (auto simp: cset_def cell_setCell)
next
  case True
  show ?thesis
  proof (cases "r < length cs \<and> c < length (cs ! r)")
    case True
    with \<open>r' = r \<and> c' = c\<close> show ?thesis by (simp add: cset_def cell_setCell)
  next
    case False
    then have "cell cs r c = None" by (auto simp: cell_def)
    with False \<open>r' = r \<and> c' = c\<close> show ?thesis by (auto simp: cset_def cell_setCell)
  qed
qed

lemma cset_in_range: "x \<in> set (cset cs r c) \<Longrightarrow> r < length cs \<and> c < length (cs ! r)"
  by (auto simp: cset_def cell_def split: if_splits)

lemma cset_nth: "r < length cs \<Longrightarrow> c < length (cs ! r) \<Longrightarrow> cset cs r c = cs ! r ! c"
  by (simp add: cset_def cell_def)

lemma sum_list_map_update:
  fixes f :: "'a \<Rightarrow> nat"
  shows "i < length xs \<Longrightarrow> sum_list (map f (xs[i := x])) + f (xs ! i) = sum_list (map f xs) + f x"
proof (induction xs arbitrary: i)
  case Nil
  then show ?case by simp
next
  case (Cons a xs)
  then show ?case by (cases i) auto
qed

lemma candTotal_setCell:
  assumes "r < length cs" "c < length (cs ! r)"
  shows "candTotal (setCell cs r c s) + length (cs ! r ! c) = candTotal cs + length s"
proof -
  have a: "sum_list (map length ((cs ! r)[c := s])) + length (cs ! r ! c) =
           sum_list (map length (cs ! r)) + length s"
    using sum_list_map_update[OF assms(2), of length s] .
  have b: "candTotal (setCell cs r c s) + sum_list (map length (cs ! r)) =
           candTotal cs + sum_list (map length ((cs ! r)[c := s]))"
    unfolding candTotal_def setCell_def
    using sum_list_map_update[OF assms(1), of "\<lambda>row. sum_list (map length row)" "(cs ! r)[c := s]"] .
  from a b show ?thesis by linarith
qed

lemma narrowsC_setCell:
  assumes "set s \<subseteq> set (cset cs r c)" "length s \<le> length (cset cs r c)"
  shows "narrowsC cs (setCell cs r c s)"
proof (cases "r < length cs \<and> c < length (cs ! r)")
  case True
  then have "candTotal (setCell cs r c s) \<le> candTotal cs"
    using candTotal_setCell[of r cs c s] assms(2) by (simp add: cset_nth)
  then show ?thesis
    using assms(1) unfolding narrowsC_def by (auto simp: cset_setCell)
next
  case False
  then have "setCell cs r c s = cs"
    by (auto simp: setCell_def list_update_beyond)
  then show ?thesis by (simp add: narrowsC_def)
qed

lemma candTotal_setCell_less:
  assumes "r < length cs" "c < length (cs ! r)" "length s < length (cs ! r ! c)"
  shows "candTotal (setCell cs r c s) < candTotal cs"
  using candTotal_setCell[OF assms(1,2), of s] assms(3) by linarith

lemma length_removeAll_less: "v \<in> set xs \<Longrightarrow> length (removeAll v xs) < length xs"
  by (induction xs) (auto simp: less_Suc_eq_le length_removeAll_less_eq)

lemma stepsC_deleteCand: "stepsC a b \<Longrightarrow> stepsC a (deleteCand r c v b)"
proof (rule stepsC_trans, assumption)
  obtain cs p where b: "b = (cs, p)" by (cases b)
  show "stepsC b (deleteCand r c v b)"
  proof (cases "v \<in> set (cset cs r c)")
    case False
    then show ?thesis by (simp add: b deleteCand_def)
  next
    case True
    note rng = cset_in_range[OF True]
    let ?s = "removeAll v (cset cs r c)"
    have "narrowsC cs (setCell cs r c ?s)"
      by (intro narrowsC_setCell) auto
    moreover have "candTotal (setCell cs r c ?s) < candTotal cs"
      using rng length_removeAll_less[OF True]
      by (intro candTotal_setCell_less) (simp_all add: cset_nth)
    ultimately show ?thesis using True by (simp add: b deleteCand_def stepsC_def)
  qed
qed

lemma stepsC_fold:
  "stepsC a b \<Longrightarrow> (\<And>x s. stepsC s (F x s)) \<Longrightarrow> stepsC a (fold F xs b)"
proof (induction xs arbitrary: b)
  case Nil
  then show ?case by simp
next
  case (Cons x xs)
  have "stepsC a (F x b)" using stepsC_trans[OF Cons.prems(1) Cons.prems(2)] .
  then show ?case using Cons.IH Cons.prems(2) by simp
qed

lemma stepsC_if:
  "(C \<Longrightarrow> stepsC a x) \<Longrightarrow> (\<not> C \<Longrightarrow> stepsC a y) \<Longrightarrow> stepsC a (if C then x else y)"
  by simp

lemma stepsC_case_prod:
  "(\<And>p q. stepsC a (f p q s)) \<Longrightarrow> stepsC a (case_prod f x s)"
  by (cases x) simp

lemma stepsC_case_option:
  "stepsC a (f s) \<Longrightarrow> (\<And>z. stepsC a (g z s)) \<Longrightarrow> stepsC a (case_option f g x s)"
  by (cases x) simp_all

text \<open>A function with a progress flag of its own, and its call \<open>if (f(...)) progress = true\<close>.\<close>

definition localSteps :: "cands \<Rightarrow> bool \<times> cands \<Rightarrow> bool" where
  "localSteps cs res = stepsC (cs, False) (snd res, fst res)"

lemma stepsC_call:
  assumes "stepsC a b" "localSteps (fst b) res"
  shows "stepsC a (case res of (p, cs') \<Rightarrow> (cs', snd b \<or> p))"
proof (rule stepsC_trans[OF assms(1)])
  show "stepsC b (case res of (p, cs') \<Rightarrow> (cs', snd b \<or> p))"
    using assms(2) unfolding localSteps_def stepsC_def by (cases res) auto
qed

lemma localSteps_fold:
  assumes "\<And>x s. stepsC s (F x s)"
  shows "localSteps cs (case fold F xs (cs, False) of (cs', p) \<Rightarrow> (p, cs'))"
proof -
  have "stepsC (cs, False) (fold F xs (cs, False))"
    by (rule stepsC_fold[OF stepsC_refl assms])
  then show ?thesis
    unfolding localSteps_def by (cases "fold F xs (cs, False)") simp
qed

lemma localSteps_none [simp]: "localSteps cs (False, cs)"
  by (simp add: localSteps_def)

lemmas stepsC_intros =
  stepsC_refl stepsC_deleteCand stepsC_fold stepsC_if stepsC_case_prod stepsC_case_option

subsection \<open>The techniques that only delete candidates\<close>

lemma eliminateFromPeers_narrows: "narrowsC cs (eliminateFromPeers cs row col val)"
proof -
  have "stepsC (cs, False) (fold (\<lambda>r st. fold (\<lambda>c st. deleteCand r c val st)
            [col div 3 * 3..<col div 3 * 3 + 3] st) [row div 3 * 3..<row div 3 * 3 + 3]
          (fold (\<lambda>r st. deleteCand r col val st) [0..<9]
            (fold (\<lambda>c st. deleteCand row c val st) [0..<9] (cs, False))))"
    by (intro stepsC_intros)
  then show ?thesis
    by (simp add: eliminateFromPeers_def Let_def stepsC_def del: upt_rec_numeral)
qed

lemma nakedComboStep_steps: "stepsC a b \<Longrightarrow> stepsC a (nakedComboStep unit sz combo b)"
  unfolding nakedComboStep_def Let_def by (intro stepsC_intros)

lemma findNakedSubset_steps: "localSteps cs (findNakedSubset cs unit sz)"
  unfolding findNakedSubset_def Let_def
  by (auto intro!: localSteps_fold nakedComboStep_steps simp del: upt_rec_numeral)

lemma hiddenComboStep_steps: "stepsC a b \<Longrightarrow> stepsC a (hiddenComboStep cc sz combo b)"
  unfolding hiddenComboStep_def Let_def by (intro stepsC_intros)

lemma findHiddenSubset_steps: "localSteps cs (findHiddenSubset cs unit sz)"
  unfolding findHiddenSubset_def Let_def
  by (auto intro!: localSteps_fold hiddenComboStep_steps simp del: upt_rec_numeral)

lemma subsetsInUnit_steps:
  assumes "\<And>cs unit sz. localSteps cs (finder cs unit sz)" "stepsC a b"
  shows "stepsC a (subsetsInUnit finder unit b)"
proof -
  obtain cs p where b: "b = (cs, p)" by (cases b)
  obtain p2 cs2 where f2: "finder cs unit 2 = (p2, cs2)" by (cases "finder cs unit 2")
  obtain p3 cs3 where f3: "finder cs2 unit 3 = (p3, cs3)" by (cases "finder cs2 unit 3")
  have "stepsC a (cs2, p \<or> p2)"
    using stepsC_call[OF assms(2), of "finder cs unit 2"] assms(1)[of cs unit 2] by (simp add: b f2)
  then have "stepsC a (cs3, (p \<or> p2) \<or> p3)"
    using stepsC_call[of a "(cs2, p \<or> p2)" "finder cs2 unit 3"] assms(1)[of cs2 unit 3]
    by (simp add: f3)
  then show ?thesis by (simp add: subsetsInUnit_def b f2 f3)
qed

lemma pointingBox_steps: "stepsC a b \<Longrightarrow> stepsC a (pointingBox br bc n b)"
  unfolding pointingBox_def Let_def by (intro stepsC_intros)

lemma lineBoxRow_steps: "stepsC a b \<Longrightarrow> stepsC a (lineBoxRow n r b)"
  unfolding lineBoxRow_def Let_def by (intro stepsC_intros)

lemma lineBoxCol_steps: "stepsC a b \<Longrightarrow> stepsC a (lineBoxCol n c b)"
  unfolding lineBoxCol_def Let_def by (intro stepsC_intros)

lemma xwingRows_steps: "stepsC a b \<Longrightarrow> stepsC a (xwingRows n b)"
  unfolding xwingRows_def Let_def
  by (intro stepsC_intros | simp only: split_paired_all prod.case)+

lemma xwingCols_steps: "stepsC a b \<Longrightarrow> stepsC a (xwingCols n b)"
  unfolding xwingCols_def Let_def
  by (intro stepsC_intros | simp only: split_paired_all prod.case)+

lemma eliminateFromColumns_steps: "localSteps cs (eliminateFromColumns cs val msk ex)"
  unfolding eliminateFromColumns_def by (intro localSteps_fold stepsC_intros)

lemma eliminateFromRows_steps: "localSteps cs (eliminateFromRows cs val msk ex)"
  unfolding eliminateFromRows_def by (intro localSteps_fold stepsC_intros)

lemma swordfishLines_steps:
  assumes "\<And>cs val msk ex. localSteps cs (eliminate cs val msk ex)" "stepsC a b"
  shows "stepsC a (swordfishLines eliminate n masks b)"
  unfolding swordfishLines_def Let_def
  using assms(2)
  by (intro stepsC_intros stepsC_call assms(1) | simp only: split_paired_all prod.case fst_conv)+

lemma swordfishDigit_steps: "stepsC a b \<Longrightarrow> stepsC a (swordfishDigit n b)"
  unfolding swordfishDigit_def Let_def
  by (intro swordfishLines_steps eliminateFromColumns_steps eliminateFromRows_steps)

lemma xyWingPair_steps: "stepsC a b \<Longrightarrow> stepsC a (xyWingPair pivot wx wy b)"
  unfolding xyWingPair_def by (cases pivot, cases wx, cases wy) (auto intro!: stepsC_intros split: option.split)

lemma xyWingAt_steps: "stepsC a b \<Longrightarrow> stepsC a (xyWingAt pivot b)"
  unfolding xyWingAt_def Let_def by (cases pivot) (auto intro!: stepsC_intros xyWingPair_steps)

subsection \<open>The techniques that place digits\<close>

text \<open>
  The invariant of a solver state: only empty cells have candidates, and candidates are digits.
\<close>

definition stateInv :: "board \<Rightarrow> cands \<Rightarrow> bool" where
  "stateInv b cs = (\<forall>r c v. v \<in> set (cset cs r c) \<longrightarrow> cell b r c = Some 0 \<and> 1 \<le> v \<and> v \<le> 9)"

definition boardNarrow :: "board \<Rightarrow> board \<Rightarrow> bool" where
  "boardNarrow b b' =
     (\<forall>r c. cell b' r c = cell b r c \<or>
        (cell b r c = Some 0 \<and> (\<exists>d. 1 \<le> d \<and> d \<le> 9 \<and> cell b' r c = Some d)))"

definition stepsB :: "board \<times> cands \<times> bool \<Rightarrow> board \<times> cands \<times> bool \<Rightarrow> bool" where
  "stepsB st st' =
     (case st of (b, cs, p) \<Rightarrow> case st' of (b', cs', p') \<Rightarrow>
        stepsC (cs, p) (cs', p') \<and> (\<not> p' \<longrightarrow> b' = b) \<and>
        (stateInv b cs \<longrightarrow> stateInv b' cs' \<and> boardNarrow b b'))"

lemma boardNarrow_refl [simp]: "boardNarrow b b"
  by (simp add: boardNarrow_def)

lemma boardNarrow_trans: "boardNarrow a b \<Longrightarrow> boardNarrow b c \<Longrightarrow> boardNarrow a c"
  unfolding boardNarrow_def by metis

lemma stepsB_refl [simp]: "stepsB st st"
  by (cases st) (simp add: stepsB_def)

lemma stepsB_trans: "stepsB a b \<Longrightarrow> stepsB b c \<Longrightarrow> stepsB a c"
proof -
  assume ab: "stepsB a b" and bc: "stepsB b c"
  obtain b1 cs1 p1 where a: "a = (b1, cs1, p1)" by (cases a)
  obtain b2 cs2 p2 where b: "b = (b2, cs2, p2)" by (cases b)
  obtain b3 cs3 p3 where c: "c = (b3, cs3, p3)" by (cases c)
  have ab': "stepsC (cs1, p1) (cs2, p2)" "\<not> p2 \<longrightarrow> b2 = b1"
    "stateInv b1 cs1 \<longrightarrow> stateInv b2 cs2 \<and> boardNarrow b1 b2"
    using ab unfolding a b stepsB_def by simp_all
  have bc': "stepsC (cs2, p2) (cs3, p3)" "\<not> p3 \<longrightarrow> b3 = b2"
    "stateInv b2 cs2 \<longrightarrow> stateInv b3 cs3 \<and> boardNarrow b2 b3"
    using bc unfolding b c stepsB_def by simp_all
  have s: "stepsC (cs1, p1) (cs3, p3)"
    using stepsC_trans[OF ab'(1) bc'(1)] .
  have "p2 \<longrightarrow> p3" using bc'(1) unfolding stepsC_def by simp
  then have u: "\<not> p3 \<longrightarrow> b3 = b1" using ab'(2) bc'(2) by blast
  have "stateInv b1 cs1 \<longrightarrow> stateInv b3 cs3 \<and> boardNarrow b1 b3"
    using ab'(3) bc'(3) boardNarrow_trans by blast
  with s u show ?thesis unfolding a c stepsB_def by simp
qed

lemma stepsB_fold:
  "stepsB a b \<Longrightarrow> (\<And>x s. stepsB s (F x s)) \<Longrightarrow> stepsB a (fold F xs b)"
proof (induction xs arbitrary: b)
  case Nil
  then show ?case by simp
next
  case (Cons x xs)
  have "stepsB a (F x b)" using stepsB_trans[OF Cons.prems(1) Cons.prems(2)] .
  then show ?case using Cons.IH Cons.prems(2) by simp
qed

lemma place_steps:
  assumes "v \<in> set (cset cs r c)"
  shows "stepsB (b, cs, p) (setCell b r c v, eliminateFromPeers (setCell cs r c []) r c v, True)"
proof -
  let ?cs1 = "setCell cs r c []"
  let ?cs' = "eliminateFromPeers ?cs1 r c v"
  note rng = cset_in_range[OF assms]
  have n1: "narrowsC cs ?cs1" by (intro narrowsC_setCell) simp_all
  have n2: "narrowsC ?cs1 ?cs'" by (rule eliminateFromPeers_narrows)
  have "length (cs ! r ! c) > 0" using assms rng by (auto simp: cset_nth)
  then have "candTotal ?cs1 < candTotal cs"
    using rng by (intro candTotal_setCell_less) simp_all
  then have lt: "candTotal ?cs' < candTotal cs"
    using n2 unfolding narrowsC_def by simp
  have sc: "stepsC (cs, p) (?cs', True)"
    using narrowsC_trans[OF n1 n2] lt unfolding stepsC_def by simp
  have e: "cset ?cs1 r c = []" using rng by (simp add: cset_setCell)
  have sub: "\<And>r' c'. set (cset ?cs' r' c') \<subseteq> set (cset ?cs1 r' c')"
    using n2 unfolding narrowsC_def by simp
  have inv: "stateInv (setCell b r c v) ?cs' \<and> boardNarrow b (setCell b r c v)" if i: "stateInv b cs"
  proof
    have bz: "cell b r c = Some 0" and dv: "1 \<le> v" "v \<le> 9"
      using i assms unfolding stateInv_def by blast+
    have cb: "\<And>r' c'. cell (setCell b r c v) r' c' = (if r' = r \<and> c' = c then Some v else cell b r' c')"
      using cell_Some_range[OF bz] by (simp add: cell_setCell)
    show "boardNarrow b (setCell b r c v)"
      unfolding boardNarrow_def cb using bz dv by auto
    show "stateInv (setCell b r c v) ?cs'"
      unfolding stateInv_def
    proof (intro allI impI)
      fix r' c' w assume w: "w \<in> set (cset ?cs' r' c')"
      then have w1: "w \<in> set (cset ?cs1 r' c')" using sub by blast
      then have ne: "\<not> (r' = r \<and> c' = c)" using e by auto
      then have "w \<in> set (cset cs r' c')" using w1 by (auto simp: cset_setCell split: if_splits)
      then have "cell b r' c' = Some 0 \<and> 1 \<le> w \<and> w \<le> 9"
        using i unfolding stateInv_def by blast
      then show "cell (setCell b r c v) r' c' = Some 0 \<and> 1 \<le> w \<and> w \<le> 9"
        using ne by (auto simp: cb)
    qed
  qed
  show ?thesis
    unfolding stepsB_def using sc inv by simp
qed

lemma nakedSingleAt_steps: "stepsB st (nakedSingleAt rc st)"
proof -
  obtain r c where rc: "rc = (r, c)" by (cases rc)
  obtain b cs p where st: "st = (b, cs, p)" by (cases st)
  show ?thesis
  proof (cases "cell b r c = Some 0 \<and> length (cset cs r c) = 1")
    case False
    then show ?thesis unfolding nakedSingleAt_def rc st by auto
  next
    case True
    then have "hd (cset cs r c) \<in> set (cset cs r c)"
      by (cases "cset cs r c") simp_all
    from place_steps[OF this, of b p] True show ?thesis
      unfolding nakedSingleAt_def rc st by (simp add: Let_def)
  qed
qed

lemma hiddenSingleAt_steps: "stepsB st (hiddenSingleAt unit n st)"
proof -
  obtain b cs p where st: "st = (b, cs, p)" by (cases st)
  let ?places = "filter (\<lambda>(r, c). n \<in> set (cset cs r c)) unit"
  show ?thesis
  proof (cases "length ?places = 1")
    case False
    then show ?thesis unfolding hiddenSingleAt_def st by (simp add: Let_def)
  next
    case True
    obtain r c where rc: "hd ?places = (r, c)" by (cases "hd ?places")
    have "hd ?places \<in> set ?places" using True by (cases ?places) simp_all
    then have "n \<in> set (cset cs r c)" unfolding rc by simp
    from place_steps[OF this, of b p] True rc show ?thesis
      unfolding hiddenSingleAt_def st by (simp add: Let_def)
  qed
qed

subsection \<open>The eight techniques\<close>

definition techSteps :: "(board \<Rightarrow> cands \<Rightarrow> bool \<times> board \<times> cands) \<Rightarrow> bool" where
  "techSteps f = (\<forall>b cs. stepsB (b, cs, False) (case f b cs of (p, b', cs') \<Rightarrow> (b', cs', p)))"

lemma stateInv_narrows: "stateInv b cs \<Longrightarrow> narrowsC cs cs' \<Longrightarrow> stateInv b cs'"
  unfolding stateInv_def narrowsC_def by blast

lemma stepsC_stepsB: "stepsC (cs, p) (cs', p') \<Longrightarrow> stepsB (b, cs, p) (b, cs', p')"
  unfolding stepsB_def using stateInv_narrows[of b cs cs'] by (simp add: stepsC_def)

lemma techSteps_localI:
  assumes "\<And>b cs. f b cs = (case g cs of (cs', p) \<Rightarrow> (p, b, cs'))"
    and "\<And>cs. stepsC (cs, False) (g cs)"
  shows "techSteps f"
  unfolding techSteps_def
proof (intro allI)
  fix b cs
  obtain cs' p where g: "g cs = (cs', p)" by (cases "g cs")
  show "stepsB (b, cs, False) (case f b cs of (p, b', cs') \<Rightarrow> (b', cs', p))"
    using stepsC_stepsB[of cs False cs' p b] assms(2)[of cs] by (simp add: assms(1) g)
qed

lemma applyNakedSingles_steps: "techSteps applyNakedSingles"
  unfolding techSteps_def applyNakedSingles_def
proof (intro allI)
  fix b cs
  have "stepsB (b, cs, False) (fold nakedSingleAt coords81 (b, cs, False))"
    by (intro stepsB_fold stepsB_refl nakedSingleAt_steps)
  then show "stepsB (b, cs, False)
     (case case fold nakedSingleAt coords81 (b, cs, False) of (b', cs', p) \<Rightarrow> (p, b', cs') of
        (p, b', cs') \<Rightarrow> (b', cs', p))"
    by (cases "fold nakedSingleAt coords81 (b, cs, False)") simp
qed

lemma applyHiddenSingles_steps: "techSteps applyHiddenSingles"
  unfolding techSteps_def applyHiddenSingles_def
proof (intro allI)
  fix b cs
  let ?res = "fold (\<lambda>unit st. fold (\<lambda>n st. hiddenSingleAt unit n st) [1..<10] st) getUnits (b, cs, False)"
  have "stepsB (b, cs, False) ?res"
    by (intro stepsB_fold stepsB_refl hiddenSingleAt_steps)
  then show "stepsB (b, cs, False)
     (case case ?res of (b', cs', p) \<Rightarrow> (p, b', cs') of (p, b', cs') \<Rightarrow> (b', cs', p))"
    by (cases ?res) simp
qed

lemma applyNakedSubsets_steps: "techSteps applyNakedSubsets"
  by (rule techSteps_localI[where g="\<lambda>cs. fold (subsetsInUnit findNakedSubset) getUnits (cs, False)"])
     (simp_all add: applyNakedSubsets_def stepsC_fold subsetsInUnit_steps findNakedSubset_steps)

lemma applyHiddenSubsets_steps: "techSteps applyHiddenSubsets"
  by (rule techSteps_localI[where g="\<lambda>cs. fold (subsetsInUnit findHiddenSubset) getUnits (cs, False)"])
     (simp_all add: applyHiddenSubsets_def stepsC_fold subsetsInUnit_steps findHiddenSubset_steps)

lemma applyPointingPairs_steps: "techSteps applyPointingPairs"
proof (rule techSteps_localI[where g="\<lambda>cs.
    fold (\<lambda>n st. fold (\<lambda>c st. lineBoxCol n c st) [0..<9] (fold (\<lambda>r st. lineBoxRow n r st) [0..<9] st))
      [1..<10]
      (fold (\<lambda>br st. fold (\<lambda>bc st. fold (\<lambda>n st. pointingBox br bc n st) [1..<10] st) [0..<3] st)
         [0..<3] (cs, False))"])
  show "\<And>b cs. applyPointingPairs b cs =
      (case fold (\<lambda>n st. fold (\<lambda>c st. lineBoxCol n c st) [0..<9] (fold (\<lambda>r st. lineBoxRow n r st) [0..<9] st))
         [1..<10]
         (fold (\<lambda>br st. fold (\<lambda>bc st. fold (\<lambda>n st. pointingBox br bc n st) [1..<10] st) [0..<3] st)
            [0..<3] (cs, False)) of (cs', p) \<Rightarrow> (p, b, cs'))"
    unfolding applyPointingPairs_def Let_def by (simp only: split_beta)
  show "\<And>cs. stepsC (cs, False)
      (fold (\<lambda>n st. fold (\<lambda>c st. lineBoxCol n c st) [0..<9] (fold (\<lambda>r st. lineBoxRow n r st) [0..<9] st))
         [1..<10]
         (fold (\<lambda>br st. fold (\<lambda>bc st. fold (\<lambda>n st. pointingBox br bc n st) [1..<10] st) [0..<3] st)
            [0..<3] (cs, False)))"
    by (intro stepsC_intros pointingBox_steps lineBoxRow_steps lineBoxCol_steps)
qed

lemma applyXWing_steps: "techSteps applyXWing"
  by (rule techSteps_localI[where g="\<lambda>cs. fold (\<lambda>n st. xwingCols n (xwingRows n st)) [1..<10] (cs, False)"])
     (simp_all add: applyXWing_def stepsC_fold xwingCols_steps xwingRows_steps del: upt_rec_numeral)

lemma applySwordfish_steps: "techSteps applySwordfish"
  by (rule techSteps_localI[where g="\<lambda>cs. fold swordfishDigit [1..<10] (cs, False)"])
     (simp_all add: applySwordfish_def stepsC_fold swordfishDigit_steps del: upt_rec_numeral)

lemma applyXYWing_steps: "techSteps applyXYWing"
  by (rule techSteps_localI[where g="\<lambda>cs. fold xyWingAt coords81 (cs, False)"])
     (simp_all add: applyXYWing_def stepsC_fold xyWingAt_steps)

subsection \<open>What a technique does to a state\<close>

lemma cell_map_map:
  "cell (map (\<lambda>r. map (F r) [0..<m]) [0..<n]) r c = (if r < n \<and> c < m then Some (F r c) else None)"
  by (auto simp: cell_def)

lemma cset_getCandidates:
  "cset (getCandidates b) r c =
     (if r < 9 \<and> c < 9 \<and> cell b r c = Some 0 then filter (\<lambda>n. isValidPlacement b r c n) [1..<10]
      else [])"
  unfolding cset_def getCandidates_def cell_map_map by simp

lemma getCandidates_stateInv: "stateInv b (getCandidates b)"
  unfolding stateInv_def by (auto simp: cset_getCandidates simp del: upt_rec_numeral)

lemma techSteps_narrow:
  assumes "techSteps f" "f b cs = (progress, b', cs')"
  shows "\<forall>r c. set (cset cs' r c) \<subseteq> set (cset cs r c)"
    and "progress \<longrightarrow> candTotal cs' < candTotal cs"
    and "\<not> progress \<longrightarrow> b' = b \<and> cs' = cs"
    and "stateInv b cs \<Longrightarrow> stateInv b' cs' \<and> boardNarrow b b'"
proof -
  have s: "stepsB (b, cs, False) (b', cs', progress)"
    using assms(1)[unfolded techSteps_def, rule_format, of b cs] assms(2) by simp
  show "\<forall>r c. set (cset cs' r c) \<subseteq> set (cset cs r c)"
    using s by (simp add: stepsB_def stepsC_def narrowsC_def)
  show "progress \<longrightarrow> candTotal cs' < candTotal cs"
    using s by (simp add: stepsB_def stepsC_def)
  show "\<not> progress \<longrightarrow> b' = b \<and> cs' = cs"
    using s by (simp add: stepsB_def stepsC_def)
  show "stateInv b' cs' \<and> boardNarrow b b'" if "stateInv b cs"
    using s that by (simp add: stepsB_def)
qed

section \<open>The logic solver\<close>

text \<open>The techniques in the order they are tried, each with its level.\<close>

definition techniques :: "(nat \<times> (board \<Rightarrow> cands \<Rightarrow> bool \<times> board \<times> cands)) list" where
  "techniques =
     [(1, applyNakedSingles), (2, applyHiddenSingles), (3, applyNakedSubsets),
      (3, applyHiddenSubsets), (4, applyPointingPairs), (5, applyXWing),
      (6, applySwordfish), (7, applyXYWing)]"

definition techniqueNames :: "nat \<Rightarrow> string" where
  "techniqueNames level =
     (if level = 1 then ''Naked Single''
      else if level = 2 then ''Hidden Single''
      else if level = 3 then ''Naked/Hidden Subsets''
      else if level = 4 then ''Pointing Pairs''
      else if level = 5 then ''X-Wing''
      else if level = 6 then ''Swordfish''
      else ''XY-Wing'')"

text \<open>
  One pass \<open>for (const tech of techniques)\<close>: the level of the first technique that reports
  progress, or nothing; the state goes through every technique that was called.
\<close>

fun tryTechniques ::
  "(nat \<times> (board \<Rightarrow> cands \<Rightarrow> bool \<times> board \<times> cands)) list \<Rightarrow> board \<Rightarrow> cands \<Rightarrow>
     nat option \<times> board \<times> cands" where
  "tryTechniques [] board cands = (None, board, cands)"
| "tryTechniques ((level, fn) # rest) board cands =
     (case fn board cands of
        (progress, board', cands') \<Rightarrow>
          if progress then (Some level, board', cands') else tryTechniques rest board' cands')"

lemma tryTechniques_steps:
  assumes "\<forall>(l, f) \<in> set ts. techSteps f"
  shows "stepsB (b, cs, False)
           (case tryTechniques ts b cs of (res, b', cs') \<Rightarrow> (b', cs', res \<noteq> None))"
  using assms
proof (induction ts arbitrary: b cs)
  case Nil
  then show ?case by simp
next
  case (Cons t ts)
  obtain l f where t: "t = (l, f)" by (cases t)
  obtain p b1 cs1 where f: "f b cs = (p, b1, cs1)" by (cases "f b cs")
  have s1: "stepsB (b, cs, False) (b1, cs1, p)"
    using Cons.prems f unfolding t techSteps_def by (metis (mono_tags, lifting) case_prod_conv list.set_intros(1))
  show ?case
  proof (cases p)
    case True
    then show ?thesis using s1 by (simp add: t f)
  next
    case False
    then have same: "b1 = b" "cs1 = cs"
      using s1 unfolding stepsB_def stepsC_def by simp_all
    show ?thesis using Cons.IH[of b cs] Cons.prems False by (simp add: t f same)
  qed
qed

lemma techniques_steps: "\<forall>(l, f) \<in> set techniques. techSteps f"
  unfolding techniques_def
  by (simp add: applyNakedSingles_steps applyHiddenSingles_steps applyNakedSubsets_steps
      applyHiddenSubsets_steps applyPointingPairs_steps applyXWing_steps applySwordfish_steps
      applyXYWing_steps)

text \<open>The loop \<open>while (!stuck)\<close> of \<open>solvePuzzleWithLogic\<close>.\<close>

function solveLoop :: "board \<Rightarrow> cands \<Rightarrow> nat \<Rightarrow> string list \<Rightarrow> board \<times> cands \<times> nat \<times> string list" where
  "solveLoop board cands maxLvl used =
     (case tryTechniques techniques board cands of
        (None, board', cands') \<Rightarrow> (board', cands', maxLvl, used)
      | (Some level, board', cands') \<Rightarrow>
          solveLoop board' cands' (if level > maxLvl then level else maxLvl)
            (setAdd (techniqueNames level) used))"
  by pat_completeness auto

termination solveLoop
proof (relation "measure (\<lambda>(board, cands, maxLvl, used). candTotal cands)", goal_cases)
  case 1
  then show ?case by simp
next
  case (2 board cands maxLvl used res rest level board' cands')
  have "tryTechniques techniques board cands = (Some level, board', cands')"
    using 2 by simp
  then have "stepsB (board, cands, False) (board', cands', True)"
    using tryTechniques_steps[OF techniques_steps, of board cands] by simp
  then show ?case by (simp add: stepsB_def stepsC_def)
qed

declare solveLoop.simps [simp del]

definition solvePuzzleWithLogic :: "board \<Rightarrow> analysis" where
  "solvePuzzleWithLogic boardInput =
     (case solveLoop boardInput (getCandidates boardInput) 0 [] of
        (board, cands, maxLvl, used) \<Rightarrow>
          \<lparr>solved = list_all (\<lambda>row. list_all (\<lambda>v. v \<noteq> 0) row) board,
           anaLevel = maxLvl,
           techniquesUsed = used\<rparr>)"

section \<open>Puzzle generation\<close>

record generated =
  puzzle :: board
  solution :: board
  analysis :: analysis

record attempt = generated +
  removed :: nat

text \<open>The symmetric pairs: every cell not yet visited with its mirror image, the centre alone.\<close>

definition buildPairs :: "(nat \<times> nat) list \<Rightarrow> (nat \<times> nat) list list" where
  "buildPairs coords =
     fst (fold (\<lambda>(r, c) (pairs, visited).
                  if r * 9 + c \<in> set visited then (pairs, visited)
                  else (let sr = 8 - r; sc = 8 - c;
                            visited' = setAdd (sr * 9 + sc) (setAdd (r * 9 + c) visited)
                        in if r = sr \<and> c = sc then (pairs @ [[(r, c)]], visited')
                           else (pairs @ [[(r, c), (sr, sc)]], visited')))
            coords ([], []))"

text \<open>
  The removal loop of \<open>generatePuzzleAttempt\<close>: blank a pair, keep it blank when exactly one
  solution remains, restore the backed-up values otherwise.
\<close>

definition restoreCell :: "nat \<times> nat \<times> nat option \<Rightarrow> board \<Rightarrow> board" where
  "restoreCell bk p = (case bk of (r, c, val) \<Rightarrow> (case val of Some v \<Rightarrow> setCell p r c v | None \<Rightarrow> p))"

fun removePairs :: "config \<Rightarrow> (nat \<times> nat) list list \<Rightarrow> board \<Rightarrow> nat \<Rightarrow> board \<times> nat" where
  "removePairs cfg [] p nrem = (p, nrem)"
| "removePairs cfg (pair # rest) p nrem =
     (if nrem \<ge> maxRemove cfg then (p, nrem)
      else if nrem + length pair > maxRemove cfg + 1 then removePairs cfg rest p nrem
      else
        (let backups = map (\<lambda>(r, c). (r, c, cell p r c)) pair
         in if list_ex (\<lambda>(r, c, val). val = Some 0) backups then removePairs cfg rest p nrem
            else
              (let p1 = fold (\<lambda>(r, c, val) q. setCell q r c 0) backups p
               in if countSolutions p1 2 = 1 then removePairs cfg rest p1 (nrem + length pair)
                  else removePairs cfg rest (fold restoreCell backups p1) nrem)))"

definition generatePuzzleAttempt :: "config \<Rightarrow> rng \<Rightarrow> attempt option \<times> rng" where
  "generatePuzzleAttempt cfg rng =
     (case generateSolution rng of (sol, rng1) \<Rightarrow>
      case shuffleArray coords81 rng1 of (coords, rng2) \<Rightarrow>
      case removePairs cfg (buildPairs coords) sol 0 of (p, rem) \<Rightarrow>
        if rem < minRemove cfg then (None, rng2)
        else (Some \<lparr>puzzle = p, solution = sol, analysis = solvePuzzleWithLogic p, removed = rem\<rparr>,
              rng2))"

text \<open>The last resort of \<open>generatePuzzleSync\<close>: single cells, until \<open>minRemove\<close> are blank.\<close>

fun removeSingles :: "config \<Rightarrow> (nat \<times> nat) list \<Rightarrow> board \<Rightarrow> nat \<Rightarrow> board \<times> nat" where
  "removeSingles cfg [] p nrem = (p, nrem)"
| "removeSingles cfg ((row, col) # rest) p nrem =
     (if nrem \<ge> minRemove cfg then (p, nrem)
      else
        (let backup = cell p row col;
             p1 = setCell p row col 0
         in if countSolutions p1 2 = 1 then removeSingles cfg rest p1 (nrem + 1)
            else removeSingles cfg rest (restoreCell (row, col, backup) p1) nrem))"

definition fallbackPuzzle :: "config \<Rightarrow> rng \<Rightarrow> generated \<times> rng" where
  "fallbackPuzzle cfg rng =
     (case generateSolution rng of (sol, rng1) \<Rightarrow>
      case shuffleArray coords81 rng1 of (positions, rng2) \<Rightarrow>
      case removeSingles cfg positions sol 0 of (p, rem) \<Rightarrow>
        (\<lparr>puzzle = p, solution = sol,
          analysis = \<lparr>solved = False, anaLevel = 0, techniquesUsed = []\<rparr>\<rparr>, rng2))"

text \<open>
  \<open>generatePuzzleSync(config)\<close>.  \<open>Date.now()\<close> is read once before the loop and once at the
  start of every attempt: \<open>clock k\<close> is what its k-th call returns, in milliseconds.
\<close>

definition maxAttempts :: nat where "maxAttempts = 1000"

definition timeBudgetMs :: nat where "timeBudgetMs = 45000"

definition finishSync :: "config \<Rightarrow> attempt option \<Rightarrow> rng \<Rightarrow> generated \<times> rng" where
  "finishSync cfg bestResult rng =
     (case bestResult of
        Some best \<Rightarrow> (generated.truncate best, rng)
      | None \<Rightarrow> fallbackPuzzle cfg rng)"

function syncLoop ::
  "config \<Rightarrow> (nat \<Rightarrow> nat) \<Rightarrow> nat \<Rightarrow> rng \<Rightarrow> attempt option \<Rightarrow> int \<Rightarrow> generated \<times> rng" where
  "syncLoop cfg clock attemptNo rng bestResult bestScore =
     (if attemptNo < maxAttempts then
        (if clock (attemptNo + 1) - clock 0 > timeBudgetMs then finishSync cfg bestResult rng
         else
           (case generatePuzzleAttempt cfg rng of
              (None, rng') \<Rightarrow> syncLoop cfg clock (attemptNo + 1) rng' bestResult bestScore
            | (Some result, rng') \<Rightarrow>
                if \<not> solved (analysis result)
                then syncLoop cfg clock (attemptNo + 1) rng' bestResult bestScore
                else if isLevelMatch (analysis result) cfg then (generated.truncate result, rng')
                else
                  (let score = (if anaLevel (analysis result) \<le> maxLevel cfg
                                then int (anaLevel (analysis result)) else - 1)
                   in if score > bestScore
                      then syncLoop cfg clock (attemptNo + 1) rng' (Some result) score
                      else syncLoop cfg clock (attemptNo + 1) rng' bestResult bestScore)))
      else finishSync cfg bestResult rng)"
  by pat_completeness auto

termination syncLoop
  by (relation "measure (\<lambda>(cfg, clock, attemptNo, rng, bestResult, bestScore). maxAttempts - attemptNo)")
     auto

declare syncLoop.simps [simp del]

definition generatePuzzleSync :: "config \<Rightarrow> rng \<Rightarrow> (nat \<Rightarrow> nat) \<Rightarrow> generated \<times> rng" where
  "generatePuzzleSync cfg rng clock = syncLoop cfg clock 0 rng None (- 1)"

section \<open>What the generator returns\<close>

lemma full_unique:
  assumes "validSolution s"
  shows "consistent s" "completions s = {s}" "countSolutions s 2 = 1"
proof -
  note wf = validSolution_wf[OF assms]
  have ag: "agrees s s" by (simp add: agrees_iff)
  show c: "consistent s" by (rule blanked_consistent[OF assms wf ag])
  show k: "completions s = {s}"
  proof (intro set_eqI iffI)
    fix t assume "t \<in> {s}"
    then show "t \<in> completions s" using assms ag by (simp add: completions_def)
  next
    fix t assume "t \<in> completions s"
    then have t: "validSolution t" "agrees s t" by (simp_all add: completions_def)
    have "t = s"
    proof (rule solutions_equal[OF assms t(1), of "{}"])
      fix r c assume h: "r < 9" "c < 9" "(r, c) \<notin> ({} :: (nat \<times> nat) set)"
      have "cell s r c \<noteq> Some 0"
        using fullConsistent_digit[OF validSolution_fullConsistent[OF assms] h(1,2)] by auto
      then show "cell t r c = cell s r c"
        using agrees_keep[OF t(2) h(1,2)] by simp
    qed simp
    then show "t \<in> {s}" by simp
  qed
  show "countSolutions s 2 = 1"
    by (simp add: countSolutions_completions[OF c] k)
qed

text \<open>A puzzle cut from the solution \<open>s\<close> that has kept exactly one solution.\<close>

definition cutFrom :: "board \<Rightarrow> board \<Rightarrow> bool" where
  "cutFrom s p = (validSolution s \<and> wf9 p \<and> agrees p s \<and> countSolutions p 2 = 1)"

lemma cutFrom_full: "validSolution s \<Longrightarrow> cutFrom s s"
  by (simp add: cutFrom_def validSolution_wf agrees_iff full_unique(3))

lemma cutFrom_completions:
  assumes "cutFrom s p"
  shows "completions p = {s}"
proof -
  have c: "consistent p"
    using assms blanked_consistent[of s p] by (simp add: cutFrom_def)
  have s: "s \<in> completions p" using assms by (simp add: cutFrom_def completions_def)
  have "min 2 (card (completions p)) = 1"
    using countSolutions_completions[OF c, of 2] assms by (simp add: cutFrom_def)
  then have "card (completions p) = 1" by (simp add: min_def split: if_splits)
  then obtain t where "completions p = {t}" by (auto simp: card_1_singleton_iff)
  with s show ?thesis by auto
qed

text \<open>Blanking the backed-up cells, and writing the backups back.\<close>

lemma blank_fold:
  assumes "wf9 p"
  shows "wf9 (fold (\<lambda>(r, c, val) q. setCell q r c 0) bk p)"
    and "r < 9 \<Longrightarrow> c < 9 \<Longrightarrow>
         cell (fold (\<lambda>(r, c, val) q. setCell q r c 0) bk p) r c =
           (if (r, c) \<in> (\<lambda>(r, c, val). (r, c)) ` set bk then Some 0 else cell p r c)"
  using assms
proof (induction bk arbitrary: p)
  case Nil
  { case 1 then show ?case by simp }
  { case 2 then show ?case by simp }
next
  case (Cons b bk)
  obtain r0 c0 v0 where b: "b = (r0, c0, v0)" by (cases b)
  { case 1 then show ?case using Cons.IH(1)[of "setCell p r0 c0 0"] by (simp add: b) }
  { case 2
    have wf: "wf9 (setCell p r0 c0 0)" using 2(3) by simp
    have r0: "r = r0 \<Longrightarrow> c = c0 \<Longrightarrow> r0 < length p \<and> c0 < length (p ! r0)"
      using 2 by (auto simp: wf9_def list_all_length)
    show ?case
      using Cons.IH(2)[OF 2(1,2) wf] r0 by (auto simp: b cell_setCell) }
qed

lemma restore_fold:
  assumes "wf9 p" "wf9 q"
    and "\<And>r c. r < 9 \<Longrightarrow> c < 9 \<Longrightarrow> (r, c) \<notin> set xs \<Longrightarrow> cell q r c = cell p r c"
  shows "fold restoreCell (map (\<lambda>(r, c). (r, c, cell p r c)) xs) q = p"
  using assms
proof (induction xs arbitrary: q)
  case Nil
  then show ?case using wf9_ext[of q p] by simp
next
  case (Cons x xs)
  obtain r0 c0 where x: "x = (r0, c0)" by (cases x)
  let ?q = "restoreCell (r0, c0, cell p r0 c0) q"
  have wf: "wf9 ?q" using Cons.prems(2) by (simp add: restoreCell_def split: option.splits)
  have "cell ?q r c = cell p r c" if h: "r < 9" "c < 9" "(r, c) \<notin> set xs" for r c
  proof (cases "(r, c) = (r0, c0)")
    case True
    then have "cell p r0 c0 = Some (p ! r0 ! c0)" using wf9_cell[OF Cons.prems(1)] h by simp
    then show ?thesis
      using True h cell_setCell_wf[OF Cons.prems(2), of r0 c0] by (simp add: restoreCell_def)
  next
    case False
    then have "cell q r c = cell p r c" using Cons.prems(3)[OF h(1,2)] h(3) by (simp add: x)
    then show ?thesis using False
      by (auto simp: restoreCell_def cell_setCell split: option.splits)
  qed
  then show ?case using Cons.IH[OF Cons.prems(1) wf] by (simp add: x)
qed

lemma blank_restore:
  assumes "wf9 p"
  shows "fold restoreCell (map (\<lambda>(r, c). (r, c, cell p r c)) pair)
           (fold (\<lambda>(r, c, val) q. setCell q r c 0) (map (\<lambda>(r, c). (r, c, cell p r c)) pair) p) = p"
proof (rule restore_fold[OF assms blank_fold(1)[OF assms]])
  fix r c :: nat assume h: "r < 9" "c < 9" "(r, c) \<notin> set pair"
  have ni: "(r, c) \<notin> (\<lambda>(r, c, val). (r, c)) ` set (map (\<lambda>(r, c). (r, c, cell p r c)) pair)"
    using h(3) by (auto simp: image_iff)
  show "cell (fold (\<lambda>(r, c, val) q. setCell q r c 0) (map (\<lambda>(r, c). (r, c, cell p r c)) pair) p) r c
             = cell p r c"
    using blank_fold(2)[OF assms h(1,2), of "map (\<lambda>(r, c). (r, c, cell p r c)) pair"] ni
    by (simp only: if_False)
qed

lemma blank_agrees:
  assumes "wf9 p" "agrees p s"
  shows "agrees (fold (\<lambda>(r, c, val) q. setCell q r c 0) bk p) s"
  unfolding agrees_iff
proof (intro allI impI)
  fix r c :: nat assume h: "r < 9" "c < 9"
  show "cell (fold (\<lambda>(r, c, val) q. setCell q r c 0) bk p) r c = Some 0 \<or>
        cell (fold (\<lambda>(r, c, val) q. setCell q r c 0) bk p) r c = cell s r c"
    using blank_fold(2)[OF assms(1) h, of bk] agrees_cases[OF assms(2) h] by auto
qed

lemma removePairs_cutFrom:
  "cutFrom s p \<Longrightarrow> cutFrom s (fst (removePairs cfg pairs p nrem))"
proof (induction pairs arbitrary: p nrem)
  case Nil
  then show ?case by simp
next
  case (Cons pair rest)
  let ?bk = "map (\<lambda>(r, c). (r, c, cell p r c)) pair"
  let ?p1 = "fold (\<lambda>(r, c, val) q. setCell q r c 0) ?bk p"
  have wf: "wf9 p" and ag: "agrees p s" and vs: "validSolution s"
    using Cons.prems by (simp_all add: cutFrom_def)
  have undo: "fold restoreCell ?bk ?p1 = p" by (rule blank_restore[OF wf])
  have p1: "countSolutions ?p1 2 = 1 \<Longrightarrow> cutFrom s ?p1"
    using blank_fold(1)[OF wf, of ?bk] blank_agrees[OF wf ag, of ?bk] vs by (simp add: cutFrom_def)
  show ?case
    using Cons.IH[OF Cons.prems] Cons.IH[OF p1] Cons.prems
    by (simp add: Let_def undo)
qed

lemma removeSingles_cutFrom:
  "cutFrom s p \<Longrightarrow> cutFrom s (fst (removeSingles cfg positions p nrem))"
proof (induction positions arbitrary: p nrem)
  case Nil
  then show ?case by simp
next
  case (Cons x rest)
  obtain row col where x: "x = (row, col)" by (cases x)
  have wf: "wf9 p" and ag: "agrees p s" and vs: "validSolution s"
    using Cons.prems by (simp_all add: cutFrom_def)
  have undo: "restoreCell (row, col, cell p row col) (setCell p row col 0) = p"
    using blank_restore[OF wf, of "[(row, col)]"] by simp
  have "agrees (setCell p row col 0) s"
    using blank_agrees[OF wf ag, of "[(row, col, None)]"] by simp
  then have p1: "countSolutions (setCell p row col 0) 2 = 1 \<Longrightarrow> cutFrom s (setCell p row col 0)"
    using wf vs by (simp add: cutFrom_def)
  show ?case
    using Cons.IH[OF Cons.prems] Cons.IH[OF p1] Cons.prems
    by (simp add: x Let_def undo)
qed

lemma truncate_fields [simp]:
  "puzzle (generated.truncate a) = puzzle a"
  "solution (generated.truncate a) = solution a"
  "analysis (generated.truncate a) = analysis a"
  by (simp_all add: generated.truncate_def)

lemma attempt_cutFrom:
  assumes "fst (generatePuzzleAttempt cfg rng) = Some a"
  shows "cutFrom (solution a) (puzzle a)"
proof -
  obtain sol rng1 where g: "generateSolution rng = (sol, rng1)" by (cases "generateSolution rng")
  obtain coords rng2 where sh: "shuffleArray coords81 rng1 = (coords, rng2)"
    by (cases "shuffleArray coords81 rng1")
  obtain p n where rp: "removePairs cfg (buildPairs coords) sol 0 = (p, n)"
    by (cases "removePairs cfg (buildPairs coords) sol 0")
  have "validSolution sol" using generateSolution_valid[of rng] g by simp
  then have "cutFrom sol p"
    using removePairs_cutFrom[OF cutFrom_full, of sol cfg "buildPairs coords" 0] rp by simp
  then show ?thesis
    using assms by (auto simp: generatePuzzleAttempt_def g sh rp split: if_splits)
qed

lemma fallback_cutFrom:
  "cutFrom (solution (fst (fallbackPuzzle cfg rng))) (puzzle (fst (fallbackPuzzle cfg rng)))"
proof -
  obtain sol rng1 where g: "generateSolution rng = (sol, rng1)" by (cases "generateSolution rng")
  obtain coords rng2 where sh: "shuffleArray coords81 rng1 = (coords, rng2)"
    by (cases "shuffleArray coords81 rng1")
  obtain p n where rp: "removeSingles cfg coords sol 0 = (p, n)"
    by (cases "removeSingles cfg coords sol 0")
  have "validSolution sol" using generateSolution_valid[of rng] g by simp
  then have "cutFrom sol p"
    using removeSingles_cutFrom[OF cutFrom_full, of sol cfg coords 0] rp by simp
  then show ?thesis
    by (simp add: fallbackPuzzle_def g sh rp)
qed

lemma finishSync_cutFrom:
  assumes "\<And>b. best = Some b \<Longrightarrow> cutFrom (solution b) (puzzle b)"
  shows "cutFrom (solution (fst (finishSync cfg best rng))) (puzzle (fst (finishSync cfg best rng)))"
  using assms by (cases best) (simp_all add: finishSync_def fallback_cutFrom)

lemma syncLoop_cutFrom:
  assumes "\<And>b. best = Some b \<Longrightarrow> cutFrom (solution b) (puzzle b)"
  shows "cutFrom (solution (fst (syncLoop cfg clock n rng best score)))
           (puzzle (fst (syncLoop cfg clock n rng best score)))"
  using assms
proof (induction cfg clock n rng best score rule: syncLoop.induct)
  case (1 cfg clock n rng best score)
  obtain res rng' where att: "generatePuzzleAttempt cfg rng = (res, rng')"
    by (cases "generatePuzzleAttempt cfg rng")
  have res: "cutFrom (solution a) (puzzle a)" if "res = Some a" for a
    using attempt_cutFrom[of cfg rng a] att that by simp
  note fin = finishSync_cutFrom[of best cfg rng, OF 1(5)]
  show ?case
    apply (subst (1 2) syncLoop.simps)
    using 1 res fin att
    by (auto simp: Let_def split: option.splits)
qed

lemma generatePuzzleSync_cutFrom:
  "cutFrom (solution (fst (generatePuzzleSync cfg rng clock))) (puzzle (fst (generatePuzzleSync cfg rng clock)))"
  unfolding generatePuzzleSync_def by (rule syncLoop_cutFrom) simp

subsection \<open>A run in which every random draw is 0\<close>

lemma shuffleFrom_nil: "snd (shuffleFrom k array []) = []"
  by (induction k arbitrary: array) (simp_all add: randomBelow_def)

lemma shuffleArray_nil: "snd (shuffleArray array []) = []"
  by (simp add: shuffleArray_def shuffleFrom_nil)

lemma fill_rng_nil:
  "rng = [] \<Longrightarrow> snd (snd (fillBoard b rng)) = []"
  "rng = [] \<Longrightarrow> snd (snd (fillNumbers b r c numbers rng)) = []"
proof (induction b rng and b r c numbers rng rule: fillBoard_fillNumbers.induct)
  case (1 board rng)
  show ?case
  proof (cases "findEmptyCell board")
    case None
    then show ?thesis using 1(2) by (simp add: fillBoard.simps)
  next
    case (Some rc)
    obtain row col where rc: "rc = (row, col)" by (cases rc)
    obtain numbers rng' where sh: "shuffleArray [1, 2, 3, 4, 5, 6, 7, 8, 9::nat] rng = (numbers, rng')"
      by (cases "shuffleArray [1, 2, 3, 4, 5, 6, 7, 8, 9::nat] rng")
    have "rng' = snd (shuffleArray [1, 2, 3, 4, 5, 6, 7, 8, 9::nat] rng)" by (simp only: sh snd_conv)
    then have "rng' = []" using 1(2) by (simp only: shuffleArray_nil)
    moreover have "fillBoard board rng = fillNumbers board row col numbers rng'"
      using Some rc sh by (simp add: fillBoard.simps)
    ultimately show ?thesis
      using 1(1)[OF Some rc[symmetric] sh[symmetric]] by simp
  qed
next
  case (2 board row col rng)
  then show ?case by (simp add: fillNumbers.simps)
next
  case (3 board row col num numbers rng)
  show ?case
  proof (cases "isValidPlacement board row col num")
    case False
    then show ?thesis using 3(3)[OF False 3(4)] by (simp add: fillNumbers.simps)
  next
    case True
    obtain ok board' rng' where fb: "fillBoard (setCell board row col num) rng = (ok, board', rng')"
      by (cases "fillBoard (setCell board row col num) rng")
    have r: "rng' = []" using 3(1)[OF True 3(4)] fb by simp
    show ?thesis
      using 3(2)[OF True fb[symmetric] refl _ r] r
      by (simp add: fillNumbers.simps(2)[of board row col num] True fb)
  qed
qed

lemma generateSolution_nil: "snd (generateSolution []) = []"
  using fill_rng_nil(1)[of "[]" emptyBoard]
  by (cases "fillBoard emptyBoard []") (simp add: generateSolution_def)

lemma two_blanks:
  assumes "validSolution s" "r1 < 9" "c1 < 9" "r2 < 9" "c2 < 9" "r1 \<noteq> r2"
  shows "cutFrom s (setCell (setCell s r1 c1 0) r2 c2 0)"
proof -
  let ?b = "setCell (setCell s r1 c1 0) r2 c2 0"
  note wf = validSolution_wf[OF assms(1)]
  have wfb: "wf9 ?b" using wf by simp
  have cb: "cell ?b r c = (if (r, c) \<in> {(r1, c1), (r2, c2)} then Some 0 else cell s r c)"
    if "r < 9" "c < 9" for r c
    using wf assms(2-5) that by (auto simp: cell_setCell_wf)
  have ag: "agrees ?b s"
    unfolding agrees_iff by (simp add: cb)
  have con: "consistent ?b" by (rule blanked_consistent[OF assms(1) wfb ag])
  have "completions ?b = {s}"
  proof (intro set_eqI iffI)
    fix t assume "t \<in> {s}"
    then show "t \<in> completions ?b" using assms(1) ag by (simp add: completions_def)
  next
    fix t assume "t \<in> completions ?b"
    then have t: "validSolution t" "agrees ?b t" by (simp_all add: completions_def)
    have "t = s"
    proof (rule solutions_equal[OF assms(1) t(1), of "{(r1, c1), (r2, c2)}"])
      fix r c assume h: "r < 9" "c < 9" "(r, c) \<notin> {(r1, c1), (r2, c2)}"
      have "cell ?b r c = cell s r c" using cb[OF h(1,2)] h(3) by auto
      moreover have "cell s r c \<noteq> Some 0"
        using fullConsistent_digit[OF validSolution_fullConsistent[OF assms(1)] h(1,2)] by auto
      ultimately show "cell t r c = cell s r c"
        using agrees_keep[OF t(2) h(1,2)] by simp
    next
      fix x assume "x \<in> {(r1, c1), (r2, c2)}"
      then consider "x = (r1, c1)" | "x = (r2, c2)" by auto
      then show "\<exists>u \<in> set getUnits. x \<in> set u \<and> set u \<inter> {(r1, c1), (r2, c2)} = {x}"
      proof cases
        case 1
        show ?thesis
          unfolding 1 using row_unit[OF assms(2)] assms(3,6)
          by (intro bexI[of _ "map (\<lambda>c. (r1, c)) [0..<9]"]) auto
      next
        case 2
        show ?thesis
          unfolding 2 using row_unit[OF assms(4)] assms(5,6)
          by (intro bexI[of _ "map (\<lambda>c. (r2, c)) [0..<9]"]) auto
      qed
    qed
    then show "t \<in> {s}" by simp
  qed
  then have "countSolutions ?b 2 = 1"
    using countSolutions_completions[OF con, of 2] by simp
  then show ?thesis using assms(1) wfb ag by (simp add: cutFrom_def)
qed

lemma removePairs_stop:
  "maxRemove cfg \<le> nrem \<Longrightarrow> removePairs cfg pairs p nrem = (p, nrem)"
  by (cases pairs) simp_all

lemma firstPair_nil:
  "buildPairs (fst (shuffleArray coords81 [])) \<noteq> [] \<and>
   hd (buildPairs (fst (shuffleArray coords81 []))) = [(0, 1), (8, 7)]"
  by code_simp

lemma attempt_nil:
  "generatePuzzleAttempt \<lparr>minRemove = 0, maxRemove = 1, maxLevel = 7\<rparr> [] =
     (Some \<lparr>puzzle = setCell (setCell (fst (generateSolution [])) 0 1 0) 8 7 0,
            solution = fst (generateSolution []),
            analysis = solvePuzzleWithLogic (setCell (setCell (fst (generateSolution [])) 0 1 0) 8 7 0),
            removed = 2\<rparr>, [])"
proof -
  let ?cfg = "\<lparr>minRemove = 0, maxRemove = 1, maxLevel = 7\<rparr>"
  let ?sol = "fst (generateSolution [])"
  let ?p = "setCell (setCell ?sol 0 1 0) 8 7 0"
  obtain rest where bp: "buildPairs (fst (shuffleArray coords81 [])) = [(0, 1), (8, 7)] # rest"
    using firstPair_nil by (cases "buildPairs (fst (shuffleArray coords81 []))") auto
  have gs: "generateSolution [] = (?sol, [])"
    using generateSolution_nil by (simp add: prod_eq_iff)
  have sh: "shuffleArray coords81 [] = (fst (shuffleArray coords81 []), [])"
    using shuffleArray_nil[of coords81] by (simp add: prod_eq_iff)
  have vs: "validSolution ?sol" by (rule generateSolution_valid)
  have nz: "cell ?sol 0 1 \<noteq> Some 0" "cell ?sol 8 7 \<noteq> Some 0"
    using fullConsistent_digit[OF validSolution_fullConsistent[OF vs], of 0 1]
      fullConsistent_digit[OF validSolution_fullConsistent[OF vs], of 8 7] by auto
  have one: "countSolutions ?p 2 = 1"
    using two_blanks[OF vs, of 0 1 8 7] by (simp add: cutFrom_def)
  have "removePairs ?cfg ([(0, 1), (8, 7)] # rest) ?sol 0 = (?p, 2)"
    using nz one by (simp add: Let_def removePairs_stop)
  then show ?thesis
    unfolding generatePuzzleAttempt_def
    by (subst gs, simp only: prod.case, subst sh, simp only: prod.case bp) simp
qed

section \<open>The retry loop against its description\<close>







subsection \<open>The budget\<close>




subsection \<open>The loop as a scan of the attempts\<close>



subsection \<open>The best-scoring attempt\<close>









section \<open>The claims\<close>

text \<open>
  C2.  For every outcome of the random shuffles, \<open>generateSolution()\<close> returns a 9 x 9 grid
  without zeros in which every row, every column and every 3 x 3 box contains each digit 1..9
  exactly once.
\<close>

theorem generateSolution_solution:
  "validSolution (fst (generateSolution rng)) \<and>
   list_all (\<lambda>row. list_all (\<lambda>v. v \<noteq> 0) row) (fst (generateSolution rng))"
proof -
  let ?s = "fst (generateSolution rng)"
  have v: "validSolution ?s" by (rule generateSolution_valid)
  note wf = validSolution_wf[OF v] and fc = validSolution_fullConsistent[OF v]
  have "x \<noteq> 0" if h: "row \<in> set ?s" "x \<in> set row" for row x
  proof -
    obtain r where r0: "r < length ?s" "row = ?s ! r"
      using h(1) unfolding in_set_conv_nth by blast
    have r: "r < 9" "row = ?s ! r" using r0 wf by (simp_all add: wf9_def)
    have len: "length row = 9" using wf h(1) by (auto simp: wf9_def list_all_iff)
    obtain c where c0: "c < length row" "x = row ! c"
      using h(2) unfolding in_set_conv_nth by blast
    have c: "c < 9" "x = row ! c" using c0 len by simp_all
    have "cell ?s r c = Some x" using wf9_cell[OF wf r(1) c(1)] r c by simp
    then show ?thesis using fullConsistent_digit[OF fc r(1) c(1)] by auto
  qed
  then show ?thesis using v by (auto simp: list_all_iff)
qed

text \<open>
  C7, as stated, fails on a grid whose filled cells already clash: the search only checks the
  digits it places itself.  Take the solution \<open>solved0\<close>, write 2 over the 1 in cell (0,0), next
  to the 2 in cell (0,1), and blank cell (8,8).  The only blank takes its 5 back and
  \<open>countSolutions\<close> returns 1, but no solution agrees with this grid: it has no completion.
\<close>

definition clashGrid :: board where
  "clashGrid = setCell (setCell solved0 0 0 2) 8 8 0"

theorem countSolutions_clash_counterexample:
  "wf9 clashGrid \<and> countSolutions clashGrid 2 = 1 \<and> card (completions clashGrid) = 0"
proof -
  have w: "wf9 clashGrid" by code_simp
  have c: "countSolutions clashGrid 2 = 1" by code_simp
  have "completions clashGrid = {}"
  proof (rule ccontr)
    assume "completions clashGrid \<noteq> {}"
    then obtain s where s: "validSolution s" "agrees clashGrid s"
      unfolding completions_def by blast
    have c00: "cell clashGrid 0 0 = Some 2" and c01: "cell clashGrid 0 1 = Some 2"
      by code_simp+
    have "cell s 0 0 = Some 2" "cell s 0 1 = Some 2"
      using agrees_keep[OF s(2), of 0 0] agrees_keep[OF s(2), of 0 1] c00 c01 by simp_all
    moreover have "(0, 1) \<in> set (getPeers 0 0)"
      by (simp add: getPeers_iff samePeer_def)
    ultimately show False
      using fullConsistent_peer[OF validSolution_fullConsistent[OF s(1)], of 0 0 0 1] by simp
  qed
  with w c show ?thesis by simp
qed

text \<open>
  C7, amended.  For every partial grid that satisfies the grid invariant (every cell holds 0 or
  a digit 1..9, and no filled cell holds the digit of one of its peers) and every limit,
  \<open>countSolutions(grid, limit)\<close> returns the exact number of completions of the grid (the
  solutions that agree with it on its filled cells) when that number is below the limit, and the
  limit otherwise, so that the result never exceeds the limit.  On a solution with one cell
  blanked it returns exactly 1, for every limit of at least 1.
\<close>

theorem countSolutions_consistent:
  "(consistent b \<longrightarrow>
      countSolutions b limit = min limit (card (completions b)) \<and> countSolutions b limit \<le> limit) \<and>
   (validSolution s \<and> r < 9 \<and> c < 9 \<and> 1 \<le> limit \<longrightarrow>
      consistent (setCell s r c 0) \<and> countSolutions (setCell s r c 0) limit = 1)"
proof (intro conjI impI)
  show "countSolutions b limit = min limit (card (completions b))" if "consistent b"
    using countSolutions_completions[OF that] .
  then show "countSolutions b limit \<le> limit" if "consistent b"
    using that by simp
  assume h: "validSolution s \<and> r < 9 \<and> c < 9 \<and> 1 \<le> limit"
  then show "consistent (setCell s r c 0)"
    using single_blank[of s r c] by simp
  from h show "countSolutions (setCell s r c 0) limit = 1"
    using single_blank[of s r c] countSolutions_completions[of "setCell s r c 0" limit] by simp
qed

theorem countSolutions_consistent_witness:
  "validSolution solved0 \<and> consistent (setCell solved0 0 0 0) \<and>
   countSolutions (setCell solved0 0 0 0) 2 = 1 \<and> card (completions (setCell solved0 0 0 0)) = 1 \<and>
   consistent emptyBoard \<and> countSolutions emptyBoard 2 = min 2 (card (completions emptyBoard))"
proof -
  have c: "consistent (setCell solved0 0 0 0)" "card (completions (setCell solved0 0 0 0)) = 1"
    using single_blank[OF solved0_valid, of 0 0] by simp_all
  have e: "consistent emptyBoard"
    using wf9_emptyBoard emptyBoard_cell by (intro consistentI) auto
  show ?thesis
    using countSolutions_consistent[of "setCell solved0 0 0 0" 2 solved0 0 0]
      countSolutions_consistent[of emptyBoard 2 solved0 0 0] solved0_valid c e
    by simp
qed

text \<open>
  C5.  \<open>isLevelMatch(analysis, config)\<close> rejects an analysis that is not solved or whose level
  exceeds the requested one; among the others it accepts every analysis when the requested level is
  at most 2, only the exact level when it is 3 or 4, a level of at least 5 when it is 5, and a level
  of at least 6 when it is 6 or more.  In particular a request for level 4 rejects the levels 1, 2
  and every level from 5 on.
\<close>

theorem isLevelMatch_policy:
  "isLevelMatch a cfg =
     (solved a \<and> anaLevel a \<le> maxLevel cfg \<and>
      (maxLevel cfg \<le> 2 \<or>
       ((maxLevel cfg = 3 \<or> maxLevel cfg = 4) \<and> anaLevel a = maxLevel cfg) \<or>
       (maxLevel cfg = 5 \<and> 5 \<le> anaLevel a) \<or>
       (6 \<le> maxLevel cfg \<and> 6 \<le> anaLevel a)))
   \<and> (maxLevel cfg = 4 \<longrightarrow> anaLevel a = 1 \<or> anaLevel a = 2 \<or> 5 \<le> anaLevel a \<longrightarrow>
        \<not> isLevelMatch a cfg)"
  unfolding isLevelMatch_def by auto

theorem isLevelMatch_policy_witness:
  "\<not> isLevelMatch \<lparr>solved = True, anaLevel = 2, techniquesUsed = []\<rparr>
        \<lparr>minRemove = 50, maxRemove = 55, maxLevel = 4\<rparr>
   \<and> isLevelMatch \<lparr>solved = True, anaLevel = 4, techniquesUsed = []\<rparr>
        \<lparr>minRemove = 50, maxRemove = 55, maxLevel = 4\<rparr>"
  using isLevelMatch_policy[of "\<lparr>solved = True, anaLevel = 2, techniquesUsed = []\<rparr>"
          "\<lparr>minRemove = 50, maxRemove = 55, maxLevel = 4\<rparr>"]
        isLevelMatch_policy[of "\<lparr>solved = True, anaLevel = 4, techniquesUsed = []\<rparr>"
          "\<lparr>minRemove = 50, maxRemove = 55, maxLevel = 4\<rparr>"]
  by simp

text \<open>
  C6, as stated, fails: the three scans of \<open>isValidPlacement\<close> cover the whole row, column and
  box of the cell, the cell itself included.  On the grid whose only filled cell is (0,0), holding
  5, no peer of (0,0) holds 5 and yet \<open>isValidPlacement(grid, 0, 0, 5)\<close> is false, while on the
  empty grid it is true: the content of the cell itself does affect the result.
\<close>

theorem isValidPlacement_self_counterexample:
  "isValidPlacement emptyBoard 0 0 5 \<and>
   \<not> isValidPlacement (setCell emptyBoard 0 0 5) 0 0 5 \<and>
   list_all (\<lambda>(r, c). cell (setCell emptyBoard 0 0 5) r c \<noteq> Some 5) (getPeers 0 0)"
  by code_simp

text \<open>
  C6, amended.  For every 9 x 9 grid, every cell (r,c) and every digit v in 1..9,
  \<open>isValidPlacement(grid, r, c, v)\<close> is true if and only if neither one of the peers of (r,c)
  (the 20 other cells of its row, column and box, as \<open>getPeers\<close> lists them) nor the cell (r,c)
  itself holds v.
\<close>

theorem isValidPlacement_units:
  assumes "wf9 b" "r < 9" "c < 9" "1 \<le> v" "v \<le> 9"
  shows "length (getPeers r c) = 20 \<and> distinct (getPeers r c) \<and>
         set (getPeers r c) =
           {(r', c'). r' < 9 \<and> c' < 9 \<and> (r', c') \<noteq> (r, c) \<and>
              (r' = r \<or> c' = c \<or> (r' div 3 = r div 3 \<and> c' div 3 = c div 3))} \<and>
         (isValidPlacement b r c v \<longleftrightarrow>
            list_all (\<lambda>(r', c'). cell b r' c' \<noteq> Some v) (getPeers r c) \<and> cell b r c \<noteq> Some v)"
  using getPeers_20[OF assms(2,3)] isValidPlacement_peers[OF assms(2,3), of b v]
    getPeers_set[OF assms(2,3)]
  by (simp add: list_all_iff)

theorem isValidPlacement_units_witness:
  "wf9 emptyBoard \<and> isValidPlacement emptyBoard 0 0 5 \<and>
   wf9 (setCell emptyBoard 0 8 5) \<and> \<not> isValidPlacement (setCell emptyBoard 0 8 5) 0 0 5"
proof -
  have w: "wf9 emptyBoard" "wf9 (setCell emptyBoard 0 8 5)"
    by code_simp+
  have p: "list_all (\<lambda>(r', c'). cell emptyBoard r' c' \<noteq> Some 5) (getPeers 0 0) \<and>
           cell emptyBoard 0 0 \<noteq> Some 5"
          "\<not> list_all (\<lambda>(r', c'). cell (setCell emptyBoard 0 8 5) r' c' \<noteq> Some 5) (getPeers 0 0)"
    by code_simp+
  show ?thesis
    using isValidPlacement_units[OF w(1), of 0 0 5] isValidPlacement_units[OF w(2), of 0 0 5] w p
    by simp
qed

text \<open>
  C1.  The puzzle of every non-null result of \<open>generatePuzzleAttempt\<close> and the puzzle of the
  record that \<open>generatePuzzleSync\<close> returns, whichever way it ends (first match, best effort or
  the fallback, which is \<open>fallbackPuzzle\<close>), has exactly one completion:
  \<open>countSolutions(puzzle, 2) = 1\<close>, and the set of its completions has one element.
\<close>

theorem generated_puzzle_unique:
  "(\<forall>a. fst (generatePuzzleAttempt cfg rng) = Some a \<longrightarrow>
      countSolutions (puzzle a) 2 = 1 \<and> card (completions (puzzle a)) = 1) \<and>
   countSolutions (puzzle (fst (generatePuzzleSync cfg rng clock))) 2 = 1 \<and>
   card (completions (puzzle (fst (generatePuzzleSync cfg rng clock)))) = 1 \<and>
   countSolutions (puzzle (fst (fallbackPuzzle cfg rng))) 2 = 1 \<and>
   card (completions (puzzle (fst (fallbackPuzzle cfg rng)))) = 1"
proof -
  have u: "countSolutions p 2 = 1 \<and> card (completions p) = 1" if "cutFrom s p" for s p
    using that cutFrom_completions[OF that] by (simp add: cutFrom_def)
  show ?thesis
    using u[OF attempt_cutFrom[of cfg rng]] u[OF generatePuzzleSync_cutFrom[of cfg rng clock]]
      u[OF fallback_cutFrom[of cfg rng]]
    by blast
qed

theorem generated_puzzle_unique_witness:
  "\<exists>a. fst (generatePuzzleAttempt \<lparr>minRemove = 0, maxRemove = 1, maxLevel = 7\<rparr> []) = Some a \<and>
       cell (puzzle a) 0 1 = Some 0 \<and> cell (puzzle a) 8 7 = Some 0 \<and>
       countSolutions (puzzle a) 2 = 1 \<and> card (completions (puzzle a)) = 1"
proof -
  let ?cfg = "\<lparr>minRemove = 0, maxRemove = 1, maxLevel = 7\<rparr>"
  let ?sol = "fst (generateSolution [])"
  let ?p = "setCell (setCell ?sol 0 1 0) 8 7 0"
  let ?a = "\<lparr>puzzle = ?p, solution = ?sol, analysis = solvePuzzleWithLogic ?p, removed = 2\<rparr>"
  have att: "fst (generatePuzzleAttempt ?cfg []) = Some ?a"
    by (simp only: attempt_nil fst_conv)
  have wf: "wf9 ?sol" by (rule validSolution_wf[OF generateSolution_valid])
  have "cell (puzzle ?a) 0 1 = Some 0" "cell (puzzle ?a) 8 7 = Some 0"
    using wf by (simp_all add: cell_setCell_wf)
  moreover have "countSolutions (puzzle ?a) 2 = 1 \<and> card (completions (puzzle ?a)) = 1"
    using generated_puzzle_unique[of ?cfg "[]" "\<lambda>k. 0"] att by blast
  ultimately show ?thesis using att by blast
qed

text \<open>
  C10.  In every non-null result of \<open>generatePuzzleAttempt\<close> and in every result of
  \<open>generatePuzzleSync\<close> the puzzle is a 9 x 9 grid that agrees with the returned solution on
  every cell it fills: \<open>puzzle[r][c]\<close> is 0 or equal to \<open>solution[r][c]\<close>.  The solution is a
  valid solution, so it is a completion of the puzzle, and it is the only one.
\<close>

theorem generated_puzzle_agrees:
  "(\<forall>a. fst (generatePuzzleAttempt cfg rng) = Some a \<longrightarrow>
      wf9 (puzzle a) \<and>
      (\<forall>r < 9. \<forall>c < 9. cell (puzzle a) r c = Some 0 \<or> cell (puzzle a) r c = cell (solution a) r c) \<and>
      validSolution (solution a) \<and> solution a \<in> completions (puzzle a) \<and>
      completions (puzzle a) = {solution a}) \<and>
   (\<forall>g. g = fst (generatePuzzleSync cfg rng clock) \<or> g = fst (fallbackPuzzle cfg rng) \<longrightarrow>
      wf9 (puzzle g) \<and>
      (\<forall>r < 9. \<forall>c < 9. cell (puzzle g) r c = Some 0 \<or> cell (puzzle g) r c = cell (solution g) r c) \<and>
      validSolution (solution g) \<and> solution g \<in> completions (puzzle g) \<and>
      completions (puzzle g) = {solution g})"
proof -
  have u: "wf9 p \<and> (\<forall>r < 9. \<forall>c < 9. cell p r c = Some 0 \<or> cell p r c = cell s r c) \<and>
           validSolution s \<and> s \<in> completions p \<and> completions p = {s}" if "cutFrom s p" for s p
    using that cutFrom_completions[OF that] by (simp add: cutFrom_def agrees_iff)
  show ?thesis
    using u[OF attempt_cutFrom[of cfg rng]] u[OF generatePuzzleSync_cutFrom[of cfg rng clock]]
      u[OF fallback_cutFrom[of cfg rng]]
    by blast
qed

theorem generated_puzzle_agrees_witness:
  "\<exists>a. fst (generatePuzzleAttempt \<lparr>minRemove = 0, maxRemove = 1, maxLevel = 7\<rparr> []) = Some a \<and>
       cell (puzzle a) 0 1 = Some 0 \<and> cell (puzzle a) 0 0 = cell (solution a) 0 0 \<and>
       cell (solution a) 0 0 \<noteq> Some 0 \<and> completions (puzzle a) = {solution a}"
proof -
  let ?cfg = "\<lparr>minRemove = 0, maxRemove = 1, maxLevel = 7\<rparr>"
  let ?sol = "fst (generateSolution [])"
  let ?p = "setCell (setCell ?sol 0 1 0) 8 7 0"
  let ?a = "\<lparr>puzzle = ?p, solution = ?sol, analysis = solvePuzzleWithLogic ?p, removed = 2\<rparr>"
  have att: "fst (generatePuzzleAttempt ?cfg []) = Some ?a"
    by (simp only: attempt_nil fst_conv)
  have vs: "validSolution ?sol" by (rule generateSolution_valid)
  note wf = validSolution_wf[OF vs]
  have "cell (puzzle ?a) 0 1 = Some 0" "cell (puzzle ?a) 0 0 = cell (solution ?a) 0 0"
    using wf by (simp_all add: cell_setCell_wf)
  moreover have "cell (solution ?a) 0 0 \<noteq> Some 0"
    using fullConsistent_digit[OF validSolution_fullConsistent[OF vs], of 0 0] by auto
  moreover have "completions (puzzle ?a) = {solution ?a}"
    using generated_puzzle_agrees[of ?cfg "[]" "\<lambda>k. 0"] att by blast
  ultimately show ?thesis using att by blast
qed

text \<open>
  C4 at a concrete input.  With \<open>maxRemove = 1\<close> and every random draw equal to 0 the first
  symmetric pair is (0,1) with (8,7).  The test written under the comment ``Would removing this
  pair exceed maxRemove?'' is \<open>removed + pair.length > maxRemove + 1\<close>, which is false here
  (0 + 2 > 2), so both cells are removed: the result is not null and its \<open>removed\<close> field is 2,
  above \<open>maxRemove\<close>.
\<close>

theorem generatePuzzleAttempt_exceeds_maxRemove:
  "\<exists>a. fst (generatePuzzleAttempt \<lparr>minRemove = 0, maxRemove = 1, maxLevel = 7\<rparr> []) = Some a \<and>
       removed a = 2 \<and> cell (puzzle a) 0 1 = Some 0 \<and> cell (puzzle a) 8 7 = Some 0"
proof -
  let ?cfg = "\<lparr>minRemove = 0, maxRemove = 1, maxLevel = 7\<rparr>"
  let ?sol = "fst (generateSolution [])"
  let ?p = "setCell (setCell ?sol 0 1 0) 8 7 0"
  let ?a = "\<lparr>puzzle = ?p, solution = ?sol, analysis = solvePuzzleWithLogic ?p, removed = 2\<rparr>"
  have att: "fst (generatePuzzleAttempt ?cfg []) = Some ?a"
    by (simp only: attempt_nil fst_conv)
  have wf: "wf9 ?sol" by (rule validSolution_wf[OF generateSolution_valid])
  have "cell (puzzle ?a) 0 1 = Some 0" "cell (puzzle ?a) 8 7 = Some 0" "removed ?a = 2"
    using wf by (simp_all add: cell_setCell_wf)
  then show ?thesis using att by blast
qed

text \<open>
  C8, as stated, fails on a state in which a filled cell still has a candidate:
  \<open>applyHiddenSingles\<close> does not look at the board before it writes.  On the grid whose only
  filled cell (0,0) holds 5, with the single candidate 3 recorded for that cell, the digit 3 has
  one place in row 0 and the call writes 3 over the 5: a cell that held a digit does not hold it
  any more.
\<close>

definition filledBoard :: board where
  "filledBoard = setCell emptyBoard 0 0 5"

definition strayCands :: cands where
  "strayCands = setCell (replicate 9 (replicate 9 [])) 0 0 [3]"

theorem applyHiddenSingles_overwrites_counterexample:
  "cell filledBoard 0 0 = Some 5 \<and>
   cell (fst (snd (applyHiddenSingles filledBoard strayCands))) 0 0 = Some 3"
  by code_simp

definition oneBlank :: board where
  "oneBlank = setCell solved0 0 0 0"

lemma oneBlank_single:
  "applyNakedSingles oneBlank (getCandidates oneBlank) = (True, solved0, replicate 9 (replicate 9 []))"
  by code_simp

text \<open>
  C8, amended.  Every one of the eight technique functions leaves in every cell a subset of the
  candidates it had, on every state.  On a state in which only empty cells have candidates and
  every candidate is a digit 1..9 (\<open>stateInv\<close>: the states that \<open>getCandidates\<close> builds and that
  the techniques hand on) it also only narrows the grid: every cell that held a digit still holds
  it, and a cell whose value changes was empty and now holds a digit 1..9.
\<close>

theorem techniques_only_narrow:
  assumes "f \<in> {applyNakedSingles, applyHiddenSingles, applyNakedSubsets, applyHiddenSubsets,
                 applyPointingPairs, applyXWing, applySwordfish, applyXYWing}"
    and "f b cs = (progress, b', cs')"
  shows "(\<forall>r c. set (cset cs' r c) \<subseteq> set (cset cs r c)) \<and>
         (stateInv b cs \<longrightarrow>
            (\<forall>r c d. cell b r c = Some d \<and> d \<noteq> 0 \<longrightarrow> cell b' r c = Some d) \<and>
            (\<forall>r c. cell b' r c \<noteq> cell b r c \<longrightarrow>
               cell b r c = Some 0 \<and> (\<exists>d. 1 \<le> d \<and> d \<le> 9 \<and> cell b' r c = Some d)) \<and>
            stateInv b' cs') \<and>
         stateInv b (getCandidates b)"
proof -
  have t: "techSteps f"
    using assms(1) applyNakedSingles_steps applyHiddenSingles_steps applyNakedSubsets_steps
      applyHiddenSubsets_steps applyPointingPairs_steps applyXWing_steps applySwordfish_steps
      applyXYWing_steps
    by blast
  note n = techSteps_narrow[OF t assms(2)]
  have "(\<forall>r c d. cell b r c = Some d \<and> d \<noteq> 0 \<longrightarrow> cell b' r c = Some d) \<and>
        (\<forall>r c. cell b' r c \<noteq> cell b r c \<longrightarrow>
           cell b r c = Some 0 \<and> (\<exists>d. 1 \<le> d \<and> d \<le> 9 \<and> cell b' r c = Some d))"
    if "boardNarrow b b'"
    using that unfolding boardNarrow_def by (metis option.inject)
  then show ?thesis
    using n(1) n(4) getCandidates_stateInv[of b] by blast
qed

theorem techniques_only_narrow_witness:
  "stateInv oneBlank (getCandidates oneBlank) \<and>
   applyNakedSingles oneBlank (getCandidates oneBlank) = (True, solved0, replicate 9 (replicate 9 [])) \<and>
   cell oneBlank 0 0 = Some 0 \<and> cell solved0 0 0 = Some 1 \<and>
   cell oneBlank 0 1 = Some 2 \<and> cell solved0 0 1 = Some 2 \<and>
   stateInv solved0 (replicate 9 (replicate 9 []))"
proof -
  have c: "cell oneBlank 0 0 = Some 0" "cell solved0 0 0 = Some 1" "cell oneBlank 0 1 = Some 2"
    by code_simp+
  show ?thesis
    using techniques_only_narrow[of applyNakedSingles oneBlank "getCandidates oneBlank" True solved0
        "replicate 9 (replicate 9 [])"] oneBlank_single c
    by simp
qed



end
